theory Spec2Isabelle
  imports Main
begin

section \<open>The scanner of goledger (parse/lex.go)\<close>

text \<open>
  The scanner reads a journal, given as one Go string (a sequence of bytes, read as
  UTF-8), and sends items (tokens) to its client. The embedding follows lex.go
  function by function: the lexer struct is a record that every function takes and
  returns, the channel of items is the list of the items sent so far (oldest first),
  a state function is a value of the datatype \<open>stateFn\<close>, and \<open>nil\<close> is \<open>None\<close>.
\<close>

subsection \<open>Runes\<close>

type_synonym rune = int

definition eof :: rune where
  "eof = - 1"

definition RuneError :: rune where
  "RuneError = 0xFFFD"

text \<open>
  \<open>utf8.DecodeRuneInString\<close> of the Go library: the rune at the head of the string
  and its width in bytes. An empty string gives \<open>(RuneError, 0)\<close>, an encoding
  that is not valid gives \<open>(RuneError, 1)\<close>.
\<close>

definition decodeRuneInString :: "string \<Rightarrow> rune \<times> nat" where
  "decodeRuneInString s =
     (case map of_char s of
        [] \<Rightarrow> (RuneError, 0)
      | s0 # t \<Rightarrow>
          if s0 < (0x80 :: nat) then (int s0, 1)
          else if s0 < 0xC2 \<or> 0xF4 < s0 then (RuneError, 1)
          else
            let sz = (if s0 < 0xE0 then 2 else if s0 < 0xF0 then 3 else 4 :: nat);
                lo = (if s0 = 0xE0 then 0xA0 else if s0 = 0xF0 then 0x90 else 0x80);
                hi = (if s0 = 0xED then 0x9F else if s0 = 0xF4 then 0x8F else 0xBF)
            in
              if length s < sz then (RuneError, 1)
              else if t ! 0 < lo \<or> hi < t ! 0 then (RuneError, 1)
              else if sz \<le> 2 then (int ((s0 mod 32) * 64 + t ! 0 mod 64), 2)
              else if t ! 1 < 0x80 \<or> 0xBF < t ! 1 then (RuneError, 1)
              else if sz \<le> 3 then
                (int ((s0 mod 16) * 4096 + (t ! 0 mod 64) * 64 + t ! 1 mod 64), 3)
              else if t ! 2 < 0x80 \<or> 0xBF < t ! 2 then (RuneError, 1)
              else
                (int ((s0 mod 8) * 262144 + (t ! 0 mod 64) * 4096
                      + (t ! 1 mod 64) * 64 + t ! 2 mod 64), 4))"

text \<open>
  \<open>unicode.IsLetter\<close> and \<open>unicode.IsDigit\<close> of the Go library decide the runes up
  to \<open>MaxLatin1 = 0xFF\<close> by a fixed rule, written out here, and the runes above by
  the range tables \<open>unicode.Letter\<close> and \<open>unicode.Digit\<close>. The tables are not part
  of this repository: they are a parameter of the model, and every theorem that
  leaves the parameter free holds whatever the tables contain.
\<close>

record unicode =
  Letter :: "rune \<Rightarrow> bool"
  Digit :: "rune \<Rightarrow> bool"

definition IsDigit :: "unicode \<Rightarrow> rune \<Rightarrow> bool" where
  "IsDigit U r = (if r \<le> 0xFF then 0x30 \<le> r \<and> r \<le> 0x39 else Digit U r)"

definition latin1Letter :: "rune \<Rightarrow> bool" where
  "latin1Letter r =
     ((0x41 \<le> r \<and> r \<le> 0x5A) \<or> (0x61 \<le> r \<and> r \<le> 0x7A) \<or> r = 0xAA \<or> r = 0xB5
      \<or> r = 0xBA \<or> (0xC0 \<le> r \<and> r \<le> 0xD6) \<or> (0xD8 \<le> r \<and> r \<le> 0xF6)
      \<or> (0xF8 \<le> r \<and> r \<le> 0xFF))"

definition IsLetter :: "unicode \<Rightarrow> rune \<Rightarrow> bool" where
  "IsLetter U r =
     (if 0 \<le> r \<and> r \<le> 0xFF then latin1Letter r
      else if 0xFF < r then Letter U r else False)"

text \<open>The tables with nothing above Latin-1, for running the scanner on ASCII text.\<close>

definition latin1 :: unicode where
  "latin1 = \<lparr>Letter = (\<lambda>r. False), Digit = (\<lambda>r. False)\<rparr>"

text \<open>
  Tables that hold the Arabic-Indic digits U+0660 to U+0669, which are decimal
  digits of \<open>unicode.Digit\<close>.
\<close>

definition arabicIndic :: unicode where
  "arabicIndic = \<lparr>Letter = (\<lambda>r. False), Digit = (\<lambda>r. 0x660 \<le> r \<and> r \<le> 0x669)\<rparr>"

subsection \<open>Items\<close>

datatype itemType =
    itemError | itemEOF | itemString | itemNote | itemJournal | itemJournalItem
  | itemDate | itemSpace | itemEOL | itemText | itemEqual | itemAsterisk
  | itemExclamation | itemSemicolon | itemCommodity | itemIdentifier | itemLeftParen
  | itemRightParen | itemNeg | itemQuantity | itemTilde | itemPeriodExpr | itemDot
  | itemStatus | itemAccountName | itemAccount | itemBeginAutomatedXact
  | itemBeginPeriodicXact | itemBeginXact
  | itemKeyword | itemInclude | itemAccountKeyword | itemEnd | itemAlias | itemPrice

text \<open>The constants are numbered by \<open>iota\<close>, and the scanner compares them.\<close>

fun iota :: "itemType \<Rightarrow> nat" where
  "iota itemError = 0" | "iota itemEOF = 1" | "iota itemString = 2" | "iota itemNote = 3"
| "iota itemJournal = 4" | "iota itemJournalItem = 5" | "iota itemDate = 6"
| "iota itemSpace = 7" | "iota itemEOL = 8" | "iota itemText = 9" | "iota itemEqual = 10"
| "iota itemAsterisk = 11" | "iota itemExclamation = 12" | "iota itemSemicolon = 13"
| "iota itemCommodity = 14" | "iota itemIdentifier = 15" | "iota itemLeftParen = 16"
| "iota itemRightParen = 17" | "iota itemNeg = 18" | "iota itemQuantity = 19"
| "iota itemTilde = 20" | "iota itemPeriodExpr = 21" | "iota itemDot = 22"
| "iota itemStatus = 23" | "iota itemAccountName = 24" | "iota itemAccount = 25"
| "iota itemBeginAutomatedXact = 26" | "iota itemBeginPeriodicXact = 27"
| "iota itemBeginXact = 28" | "iota itemKeyword = 29" | "iota itemInclude = 30"
| "iota itemAccountKeyword = 31" | "iota itemEnd = 32" | "iota itemAlias = 33"
| "iota itemPrice = 34"

text \<open>
  The value of an item is a slice of the input, or, for an error item, the result of
  \<open>fmt.Sprintf\<close>, kept as the format and its arguments (the verb \<open>%#U\<close> prints a
  rune as \<open>U+0041 'A'\<close>; its rendering belongs to the Go library).
\<close>

datatype itemVal = Src string | Sprintf string "rune list"

datatype item = Item (item_typ: itemType) (item_pos: nat) (item_val: itemVal)

text \<open>The map \<open>key\<close>; a Go map gives the zero value, \<open>itemError\<close>, for a missing key.\<close>

definition key :: "(string \<times> itemType) list" where
  "key = [(''include'', itemInclude), (''account'', itemAccountKeyword),
          (''end'', itemEnd), (''alias'', itemAlias), (''P'', itemPrice)]"

definition keyAt :: "string \<Rightarrow> itemType" where
  "keyAt word = (case map_of key word of Some t \<Rightarrow> t | None \<Rightarrow> itemError)"

subsection \<open>The lexer and its cursor\<close>

text \<open>
  The fields that the scanning functions read or write. (\<open>name\<close>, \<open>lastPos\<close> and
  \<open>parenDepth\<close> are used by none of them; \<open>state\<close> is the loop variable of \<open>run\<close>.)
  Positions are byte offsets. \<open>backup\<close> is only ever called on the state that
  \<open>next\<close> returned, where \<open>width \<le> pos\<close>, so the subtraction on \<open>nat\<close> is the
  subtraction of the code.
\<close>

record lexer =
  input :: string
  pos :: nat
  start :: nat
  width :: nat
  items :: "item list"

datatype stateFn =
    lexJournalFn | lexIdentifierFn | lexPeriodicXactFn | lexAutomatedXactFn
  | lexPlainXactDateFn | lexPlainXactRestFn | lexPostingsFn bool | lexPostingAmountFn

definition slice :: "string \<Rightarrow> nat \<Rightarrow> nat \<Rightarrow> string" where
  "slice s i j = take (j - i) (drop i s)"

definition next_rune :: "lexer \<Rightarrow> rune \<times> lexer" where
  "next_rune l =
     (if length (input l) \<le> pos l then (eof, l\<lparr>width := 0\<rparr>)
      else
        let (r, w) = decodeRuneInString (drop (pos l) (input l))
        in (r, l\<lparr>width := w, pos := pos l + w\<rparr>))"

definition backup :: "lexer \<Rightarrow> lexer" where
  "backup l = l\<lparr>pos := pos l - width l\<rparr>"

definition peek :: "lexer \<Rightarrow> rune \<times> lexer" where
  "peek l = (let (r, l1) = next_rune l in (r, backup l1))"

definition emit :: "itemType \<Rightarrow> lexer \<Rightarrow> lexer" where
  "emit t l =
     l\<lparr>items := items l @ [Item t (start l) (Src (slice (input l) (start l) (pos l)))],
       start := pos l\<rparr>"

definition current :: "lexer \<Rightarrow> string" where
  "current l = slice (input l) (start l) (pos l)"

definition errorf :: "string \<Rightarrow> rune list \<Rightarrow> lexer \<Rightarrow> stateFn option \<times> lexer" where
  "errorf format args l =
     (None, l\<lparr>items := items l @ [Item itemError (start l) (Sprintf format args)]\<rparr>)"

definition lex_new :: "string \<Rightarrow> lexer" where
  "lex_new inp = \<lparr>input = inp, pos = 0, start = 0, width = 0, items = []\<rparr>"

definition isSpace :: "rune \<Rightarrow> bool" where
  "isSpace r = (r = of_char CHR '' '' \<or> r = of_char (CHR 0x09))"

definition isEndOfLine :: "rune \<Rightarrow> bool" where
  "isEndOfLine r = (r = of_char (CHR 0x0D) \<or> r = of_char (CHR 0x0A))"

definition isAlphaNumeric :: "unicode \<Rightarrow> rune \<Rightarrow> bool" where
  "isAlphaNumeric U r = (r = of_char CHR ''_'' \<or> IsLetter U r \<or> IsDigit U r)"


subsection \<open>The cursor moves forward\<close>

lemma decodeRuneInString_width:
  "s \<noteq> [] \<Longrightarrow> 1 \<le> snd (decodeRuneInString s) \<and> snd (decodeRuneInString s) \<le> length s"
  by (cases s) (auto simp: decodeRuneInString_def Let_def Suc_le_eq not_less)

lemma decodeRuneInString_nonneg: "0 \<le> fst (decodeRuneInString s)"
  by (cases s) (auto simp: decodeRuneInString_def Let_def RuneError_def)

lemma next_rune_input [simp]: "input (snd (next_rune l)) = input l"
  by (simp add: next_rune_def Let_def split: prod.split)

lemma next_rune_start [simp]: "start (snd (next_rune l)) = start l"
  by (simp add: next_rune_def Let_def split: prod.split)

lemma next_rune_items [simp]: "items (snd (next_rune l)) = items l"
  by (simp add: next_rune_def Let_def split: prod.split)

lemma next_rune_width [simp]: "next_rune (l\<lparr>width := w\<rparr>) = (fst (next_rune l), snd (next_rune l))"
  by (simp add: next_rune_def Let_def split: prod.split)

lemma next_rune_eof: "fst (next_rune l) = eof \<longleftrightarrow> length (input l) \<le> pos l"
  using decodeRuneInString_nonneg [of "drop (pos l) (input l)"]
  by (auto simp: next_rune_def Let_def eof_def split: prod.split)

lemma next_rune_at_eof: "length (input l) \<le> pos l \<Longrightarrow> next_rune l = (eof, l\<lparr>width := 0\<rparr>)"
  by (simp add: next_rune_def)

lemma next_rune_pos:
  "pos (snd (next_rune l)) = pos l + width (snd (next_rune l))"
  by (simp add: next_rune_def Let_def split: prod.split)

lemma next_rune_advance:
  assumes "pos l < length (input l)"
  shows "pos l < pos (snd (next_rune l))" and "pos (snd (next_rune l)) \<le> length (input l)"
  using assms decodeRuneInString_width [of "drop (pos l) (input l)"]
  by (auto simp: next_rune_def Let_def split: prod.split)

lemma next_rune_mono: "pos l \<le> pos (snd (next_rune l))"
  by (simp add: next_rune_pos)

lemma backup_next_rune:
  "backup (snd (next_rune l)) = l\<lparr>width := width (snd (next_rune l))\<rparr>"
  by (auto simp: backup_def next_rune_def Let_def split: prod.splits)

lemma peek_eq: "peek l = (fst (next_rune l), l\<lparr>width := width (snd (next_rune l))\<rparr>)"
  by (simp add: peek_def case_prod_unfold Let_def backup_next_rune)

lemma next_rune_peek [simp]: "next_rune (snd (peek l)) = next_rune l"
  by (simp add: peek_eq)

lemma isSpace_not_eof: "isSpace r \<Longrightarrow> r \<noteq> eof"
  by (auto simp: isSpace_def eof_def)

lemma isEndOfLine_not_eof: "isEndOfLine r \<Longrightarrow> r \<noteq> eof"
  by (auto simp: isEndOfLine_def eof_def)

lemma isAlphaNumeric_not_eof: "isAlphaNumeric U r \<Longrightarrow> r \<noteq> eof"
  by (auto simp: isAlphaNumeric_def IsLetter_def IsDigit_def eof_def)

lemma consumed:
  "fst (next_rune l) \<noteq> eof \<Longrightarrow>
   length (input (snd (next_rune l))) - pos (snd (next_rune l)) < length (input l) - pos l"
  using next_rune_advance [of l] by (simp add: next_rune_eof)

subsection \<open>The scanning functions\<close>

text \<open>
  The loop \<open>for isSpace(l.peek()) { l.next() }\<close>, which \<open>lexJournal\<close> and
  \<open>scanSpaces\<close> both contain.
\<close>

function spaceRun :: "lexer \<Rightarrow> lexer" where
  "spaceRun l =
     (let (r, l1) = peek l
      in if isSpace r then spaceRun (snd (next_rune l1)) else l1)"
  by pat_completeness auto
termination
proof (relation "measure (\<lambda>l. length (input l) - pos l)")
  show "wf (measure (\<lambda>l. length (input l) - pos l))" by simp
next
  fix l :: lexer and x :: "rune \<times> lexer" and r l1
  assume "x = peek l" and "(r, l1) = x" and "isSpace r"
  then have "fst (next_rune l) \<noteq> eof" and "next_rune l1 = next_rune l"
    by (auto simp: peek_eq isSpace_not_eof)
  then show "(snd (next_rune l1), l) \<in> measure (\<lambda>l. length (input l) - pos l)"
    using consumed [of l] by simp
qed


definition scanSpaces :: "lexer \<Rightarrow> bool \<times> lexer" where
  "scanSpaces l =
     (let l1 = spaceRun l
      in if current l1 = [] then (False, l1) else (True, emit itemSpace l1))"

text \<open>The loop of \<open>scanStringToEOL\<close>, and the function.\<close>

function scanStringToEOL_loop :: "lexer \<Rightarrow> lexer" where
  "scanStringToEOL_loop l =
     (let (r, l1) = peek l
      in if isEndOfLine r then l1
         else if r = eof then l1
         else scanStringToEOL_loop (snd (next_rune l1)))"
  by pat_completeness auto
termination
proof (relation "measure (\<lambda>l. length (input l) - pos l)")
  show "wf (measure (\<lambda>l. length (input l) - pos l))" by simp
next
  fix l :: lexer and x :: "rune \<times> lexer" and r l1
  assume "x = peek l" and "(r, l1) = x" and "r \<noteq> eof"
  then have "fst (next_rune l) \<noteq> eof" and "next_rune l1 = next_rune l"
    by (auto simp: peek_eq)
  then show "(snd (next_rune l1), l) \<in> measure (\<lambda>l. length (input l) - pos l)"
    using consumed [of l] by simp
qed

definition scanStringToEOL :: "lexer \<Rightarrow> bool \<times> lexer" where
  "scanStringToEOL l =
     (let l1 = scanStringToEOL_loop l
      in if current l1 = [] then (False, l1) else (True, emit itemString l1))"

text \<open>The loop of \<open>scanStringUntil\<close>, and the function.\<close>

function scanStringUntil_loop :: "rune \<Rightarrow> lexer \<Rightarrow> lexer" where
  "scanStringUntil_loop until l =
     (let (r, l1) = peek l
      in if isEndOfLine r then l1
         else if r = eof then l1
         else if r = until then l1
         else scanStringUntil_loop until (snd (next_rune l1)))"
  by pat_completeness auto
termination
proof (relation "measure (\<lambda>(until, l). length (input l) - pos l)")
  show "wf (measure (\<lambda>(until :: rune, l). length (input l) - pos l))" by simp
next
  fix until :: rune and l :: lexer and x :: "rune \<times> lexer" and r l1
  assume "x = peek l" and "(r, l1) = x" and "r \<noteq> eof"
  then have "fst (next_rune l) \<noteq> eof" and "next_rune l1 = next_rune l"
    by (auto simp: peek_eq)
  then show "((until, snd (next_rune l1)), (until, l))
      \<in> measure (\<lambda>(until, l). length (input l) - pos l)"
    using consumed [of l] by simp
qed

definition scanStringUntil :: "rune \<Rightarrow> lexer \<Rightarrow> bool \<times> lexer" where
  "scanStringUntil until l =
     (let l1 = scanStringUntil_loop until l
      in if current l1 = [] then (False, l1) else (True, emit itemString l1))"

function scanNote :: "lexer \<Rightarrow> lexer" where
  "scanNote l =
     (let (r, l1) = next_rune l
      in if isEndOfLine r \<or> r = eof then
           (let l2 = backup l1 in if current l2 \<noteq> [] then emit itemNote l2 else l2)
         else scanNote l1)"
  by pat_completeness auto
termination
proof (relation "measure (\<lambda>l. length (input l) - pos l)")
  show "wf (measure (\<lambda>l. length (input l) - pos l))" by simp
next
  fix l :: lexer and x :: "rune \<times> lexer" and r l1
  assume "x = next_rune l" and "(r, l1) = x" and "\<not> (isEndOfLine r \<or> r = eof)"
  then have "fst (next_rune l) \<noteq> eof" and "l1 = snd (next_rune l)"
    by (auto simp: prod_eq_iff)
  then show "(l1, l) \<in> measure (\<lambda>l. length (input l) - pos l)"
    using consumed [of l] by simp
qed

function scanStringNote :: "lexer \<Rightarrow> lexer" where
  "scanStringNote l =
     (let (r, l1) = next_rune l
      in if r = of_char CHR '';'' then
           (let l2 = backup l1;
                l3 = (if current l2 \<noteq> [] then emit itemString l2 else l2);
                (r', l4) = next_rune l3
            in scanNote l4)
         else if isEndOfLine r then
           (if current l1 \<noteq> [] then emit itemString l1 else l1)
         else if r = eof then
           (if current l1 \<noteq> [] then emit itemString l1 else l1)
         else scanStringNote l1)"
  by pat_completeness auto
termination
proof (relation "measure (\<lambda>l. length (input l) - pos l)")
  show "wf (measure (\<lambda>l. length (input l) - pos l))" by simp
next
  fix l :: lexer and x :: "rune \<times> lexer" and r l1
  assume "x = next_rune l" and "(r, l1) = x" and "r \<noteq> eof"
  then have "fst (next_rune l) \<noteq> eof" and "l1 = snd (next_rune l)"
    by (auto simp: prod_eq_iff)
  then show "(l1, l) \<in> measure (\<lambda>l. length (input l) - pos l)"
    using consumed [of l] by simp
qed

definition atTerminator :: "lexer \<Rightarrow> bool \<times> lexer" where
  "atTerminator l = (let (r, l1) = peek l in (isSpace r \<or> isEndOfLine r, l1))"


subsection \<open>The state functions\<close>

definition lexJournal :: "unicode \<Rightarrow> lexer \<Rightarrow> stateFn option \<times> lexer" where
  "lexJournal U l =
     (let (r, l1) = next_rune l
      in if isSpace r then (Some lexJournalFn, emit itemSpace (spaceRun l1))
         else if r = of_char CHR ''~'' then (Some lexPeriodicXactFn, emit itemTilde l1)
         else if r = of_char CHR ''='' then (Some lexAutomatedXactFn, emit itemEqual l1)
         else if IsDigit U r then (Some lexPlainXactDateFn, l1)
         else if isAlphaNumeric U r then (Some lexIdentifierFn, backup l1)
         else if isEndOfLine r then (Some lexJournalFn, emit itemEOL l1)
         else if r = eof then (Some lexJournalFn, emit itemEOF l1)
         else errorf ''unrecognized character in directive: %#U'' [r] l1)"

definition missingFilename :: string where
  "missingFilename = ''missing filename after '' @ [CHR 0x27] @ ''include'' @ [CHR 0x27]"

text \<open>
  The \<open>default\<close> case of the switch in \<open>lexIdentifier\<close>: what is done with the
  word once \<open>next\<close> has returned a rune \<open>r\<close> that is not alphanumeric.
\<close>

definition lexIdentifier_word :: "rune \<Rightarrow> lexer \<Rightarrow> stateFn option \<times> lexer" where
  "lexIdentifier_word r l1 =
     (let l2 = backup l1;
          word = slice (input l2) (start l2) (pos l2);
          (t, l3) = atTerminator l2
      in if \<not> t then errorf ''bad character %#U'' [r] l3
         else if word = ''include'' then
           (let l4 = emit itemInclude l3;
                (b, l5) = scanSpaces l4;
                (ok, l6) = scanStringToEOL l5
            in if \<not> ok then errorf missingFilename [] l6
               else (Some lexJournalFn, l6))
         else if word = ''end'' then
           (let l4 = emit itemEnd l3;
                (b, l5) = scanSpaces l4
            in (Some lexIdentifierFn, l5))
         else if iota (keyAt word) > iota itemKeyword then
           (Some lexJournalFn, emit (keyAt word) l3)
         else (Some lexJournalFn, emit itemIdentifier l3))"

function lexIdentifier :: "unicode \<Rightarrow> lexer \<Rightarrow> stateFn option \<times> lexer" where
  "lexIdentifier U l =
     (let (r, l1) = next_rune l
      in if isAlphaNumeric U r then lexIdentifier U l1
         else lexIdentifier_word r l1)"
  by pat_completeness auto
termination
proof (relation "measure (\<lambda>(U, l). length (input l) - pos l)")
  show "wf (measure (\<lambda>(U :: unicode, l). length (input l) - pos l))" by simp
next
  fix U :: unicode and l :: lexer and x :: "rune \<times> lexer" and r l1
  assume "x = next_rune l" and "(r, l1) = x" and "isAlphaNumeric U r"
  then have "fst (next_rune l) \<noteq> eof" and "l1 = snd (next_rune l)"
    by (auto simp: prod_eq_iff isAlphaNumeric_not_eof)
  then show "((U, l1), (U, l)) \<in> measure (\<lambda>(U, l). length (input l) - pos l)"
    using consumed [of l] by simp
qed

definition lexPeriodicXact :: "lexer \<Rightarrow> stateFn option \<times> lexer" where
  "lexPeriodicXact l =
     (let (b, l1) = scanSpaces l;
          l2 = scanStringNote l1
      in (Some (lexPostingsFn False), l2))"

definition lexAutomatedXact :: "lexer \<Rightarrow> stateFn option \<times> lexer" where
  "lexAutomatedXact l =
     (let (b, l1) = scanSpaces l;
          l2 = scanStringNote l1
      in (Some (lexPostingsFn False), l2))"

definition lexPlainXactDate :: "unicode \<Rightarrow> lexer \<Rightarrow> stateFn option \<times> lexer" where
  "lexPlainXactDate U l =
     (let (r, l1) = peek l
      in if IsDigit U r \<or> r = of_char CHR ''.'' \<or> r = of_char CHR ''-''
            \<or> r = of_char CHR ''/'' then
           (Some lexPlainXactDateFn, snd (next_rune l1))
         else if isSpace r then
           (let l2 = emit itemDate l1;
                (b, l3) = scanSpaces l2
            in (Some lexPlainXactRestFn, l3))
         else if r = eof then errorf ''unexpected end-of-file'' [] l1
         else if isEndOfLine r then errorf ''unexpected end-of-line'' [] l1
         else errorf ''invalid character in transaction date specification: %#U'' [r] l1)"

definition lexPlainXactRest :: "lexer \<Rightarrow> stateFn option \<times> lexer" where
  "lexPlainXactRest l =
     (let (r, l1) = next_rune l
      in if r = of_char CHR ''='' then
           (let l2 = emit itemEqual l1; (b, l3) = scanSpaces l2
            in (Some lexPlainXactDateFn, l3))
         else if r = of_char CHR ''*'' then
           (let l2 = emit itemAsterisk l1; (b, l3) = scanSpaces l2
            in (Some lexPlainXactRestFn, l3))
         else if r = of_char CHR ''!'' then
           (let l2 = emit itemExclamation l1; (b, l3) = scanSpaces l2
            in (Some lexPlainXactRestFn, l3))
         else if r = of_char CHR ''('' then
           (let l2 = emit itemLeftParen l1; (b, l3) = scanStringUntil (of_char CHR '')'') l2
            in (Some lexPlainXactRestFn, l3))
         else if r = of_char CHR '')'' then
           (Some lexPlainXactRestFn, emit itemRightParen l1)
         else (Some (lexPostingsFn False), scanStringNote (backup l1)))"

text \<open>
  Modelled from the spec: \<open>scanAccountName\<close>, which \<open>lexPostings\<close> calls and lex.go
  does not define. The spec (4.6): "consume characters until end-of-line or until a
  field separator (two consecutive spaces, a tab, or a space-then-tab/tab-then-space)
  is found; emit AccountName". The separator itself is left in the input.
\<close>

function scanAccountName_loop :: "lexer \<Rightarrow> lexer" where
  "scanAccountName_loop l =
     (let (r, l1) = peek l
      in if isEndOfLine r \<or> r = eof then l1
         else if r = of_char (CHR 0x09) then l1
         else if r = of_char CHR '' '' \<and> isSpace (fst (peek (snd (next_rune l1)))) then l1
         else scanAccountName_loop (snd (next_rune l1)))"
  by pat_completeness auto
termination
proof (relation "measure (\<lambda>l. length (input l) - pos l)")
  show "wf (measure (\<lambda>l. length (input l) - pos l))" by simp
next
  fix l :: lexer and x :: "rune \<times> lexer" and r l1
  assume "x = peek l" and "(r, l1) = x" and "\<not> (isEndOfLine r \<or> r = eof)"
  then have "fst (next_rune l) \<noteq> eof" and "next_rune l1 = next_rune l"
    by (auto simp: peek_eq)
  then show "(snd (next_rune l1), l) \<in> measure (\<lambda>l. length (input l) - pos l)"
    using consumed [of l] by simp
qed

definition scanAccountName :: "lexer \<Rightarrow> lexer" where
  "scanAccountName l = emit itemAccountName (scanAccountName_loop l)"

text \<open>
  \<open>lexPostings\<close> is a \<open>for\<close> loop around one \<open>switch\<close>, with the local variable
  \<open>expectIndent\<close>, which is false when the function is entered. The loop has no
  exit at the end of the input, so the model runs it one iteration at a time:
  \<open>lexPostings U expectIndent l\<close> is one iteration, and its result
  \<open>Some (lexPostingsFn b)\<close> stands for the next iteration with \<open>expectIndent = b\<close>
  (\<open>continue\<close>, the end of the loop body, and \<open>return lexPostings\<close>, which enters
  the function again with \<open>expectIndent = false\<close>).
\<close>

definition lexPostings :: "unicode \<Rightarrow> bool \<Rightarrow> lexer \<Rightarrow> stateFn option \<times> lexer" where
  "lexPostings U expectIndent l =
     (let (r, l1) = next_rune l
      in if isEndOfLine r then (Some (lexPostingsFn True), emit itemEOL l1)
         else if expectIndent then
           (if isSpace r then
              (let (b, l2) = scanSpaces l1 in (Some (lexPostingsFn False), l2))
            else (Some lexJournalFn, backup l1))
         else if r = of_char CHR ''*'' then
           (let l2 = emit itemAsterisk l1; (b, l3) = scanSpaces l2
            in (Some (lexPostingsFn False), l3))
         else if r = of_char CHR ''!'' then
           (let l2 = emit itemExclamation l1; (b, l3) = scanSpaces l2
            in (Some (lexPostingsFn False), l3))
         else if IsLetter U r then (Some lexPostingAmountFn, scanAccountName l1)
         else (Some (lexPostingsFn False), l1))"

definition lexPostingAmount :: "lexer \<Rightarrow> stateFn option \<times> lexer" where
  "lexPostingAmount l = (Some (lexPostingsFn False), l)"

text \<open>The equations of the loops are unfolded by hand, one round at a time.\<close>

declare spaceRun.simps [simp del] scanStringToEOL_loop.simps [simp del]
  scanStringUntil_loop.simps [simp del] scanNote.simps [simp del]
  scanStringNote.simps [simp del] lexIdentifier.simps [simp del]
  scanAccountName_loop.simps [simp del]

subsection \<open>Running the scanner\<close>

fun step :: "unicode \<Rightarrow> stateFn \<Rightarrow> lexer \<Rightarrow> stateFn option \<times> lexer" where
  "step U lexJournalFn l = lexJournal U l"
| "step U lexIdentifierFn l = lexIdentifier U l"
| "step U lexPeriodicXactFn l = lexPeriodicXact l"
| "step U lexAutomatedXactFn l = lexAutomatedXact l"
| "step U lexPlainXactDateFn l = lexPlainXactDate U l"
| "step U lexPlainXactRestFn l = lexPlainXactRest l"
| "step U (lexPostingsFn expectIndent) l = lexPostings U expectIndent l"
| "step U lexPostingAmountFn l = lexPostingAmount l"

text \<open>
  \<open>run\<close> calls the state function until it is \<open>nil\<close>. Nothing bounds the number of
  calls, so the model counts them: \<open>run U n (state, l)\<close> is the scanner after at
  most \<open>n\<close> steps, and a first component \<open>None\<close> says that \<open>run\<close> has left its
  loop and closed the channel. \<open>lex\<close> starts \<open>run\<close> on a new lexer; its argument
  \<open>name\<close> is used for nothing.
\<close>

fun run :: "unicode \<Rightarrow> nat \<Rightarrow> stateFn option \<times> lexer \<Rightarrow> stateFn option \<times> lexer" where
  "run U 0 c = c"
| "run U (Suc n) (None, l) = (None, l)"
| "run U (Suc n) (Some f, l) = run U n (step U f l)"

definition lex_steps :: "unicode \<Rightarrow> nat \<Rightarrow> string \<Rightarrow> stateFn option \<times> lexer" where
  "lex_steps U n inp = run U n (Some lexJournalFn, lex_new inp)"

subsection \<open>Notions for the statements\<close>

text \<open>
  The bytes that \<open>isSpace\<close> and \<open>isEndOfLine\<close> accept, and a lexer that has sent
  nothing yet, on the input \<open>inp\<close>, with its item starting at \<open>b\<close> and its cursor
  at \<open>p\<close>.
\<close>

definition spaceChar :: "char \<Rightarrow> bool" where
  "spaceChar c = (c = CHR '' '' \<or> c = CHR 0x09)"

definition eolChar :: "char \<Rightarrow> bool" where
  "eolChar c = (c = CHR 0x0D \<or> c = CHR 0x0A)"

definition lexer_at :: "string \<Rightarrow> nat \<Rightarrow> nat \<Rightarrow> lexer" where
  "lexer_at inp b p = \<lparr>input = inp, pos = p, start = b, width = 0, items = []\<rparr>"

text \<open>
  The bareword at the head of a string: its longest prefix of runes that
  \<open>isAlphaNumeric\<close> accepts, as bytes. This is what the loop of \<open>lexIdentifier\<close>
  absorbs (lemma \<open>lexIdentifier_bareword\<close>).
\<close>

function bareword :: "unicode \<Rightarrow> string \<Rightarrow> string" where
  "bareword U s =
     (if s = [] then []
      else let (r, w) = decodeRuneInString s
           in if isAlphaNumeric U r then take w s @ bareword U (drop w s) else [])"
  by pat_completeness auto
termination
proof (relation "measure (\<lambda>(U, s). length s)")
  show "wf (measure (\<lambda>(U :: unicode, s :: string). length s))" by simp
next
  fix U :: unicode and s :: string and x :: "rune \<times> nat" and r w
  assume "s \<noteq> []" and "x = decodeRuneInString s" and "(r, w) = x"
  then have "1 \<le> w" using decodeRuneInString_width [of s] by (auto simp: prod_eq_iff)
  with \<open>s \<noteq> []\<close> show "((U, drop w s), (U, s)) \<in> measure (\<lambda>(U, s). length s)" by simp
qed

declare bareword.simps [simp del]

text \<open>
  The part of the input that an item covers: its value when the value is a slice of
  the input, and nothing for an error item, whose value is a message.
\<close>

definition span :: "item \<Rightarrow> string" where
  "span it = (case item_val it of Src s \<Rightarrow> s | Sprintf f a \<Rightarrow> [])"

text \<open>
  The invariant of the scanner. \<open>laid p its\<close>: the items lie end to end from the
  position \<open>p\<close> on. \<open>tiled inp l\<close>: the lexer reads \<open>inp\<close>, its marks are in
  order and inside the input, and the items sent so far lie end to end from the
  beginning of the input and cover it up to \<open>start\<close>. \<open>adv l l'\<close>: \<open>l'\<close> is \<open>l\<close>
  with the cursor moved forward, inside the input.
\<close>

fun laid :: "nat \<Rightarrow> item list \<Rightarrow> bool" where
  "laid p [] = True"
| "laid p (it # its) = (item_pos it = p \<and> laid (p + length (span it)) its)"

definition tiled :: "string \<Rightarrow> lexer \<Rightarrow> bool" where
  "tiled inp l =
     (input l = inp \<and> start l \<le> pos l \<and> pos l \<le> length inp \<and> laid 0 (items l)
      \<and> concat (map span (items l)) = take (start l) inp)"

definition adv :: "lexer \<Rightarrow> lexer \<Rightarrow> bool" where
  "adv l l' =
     (input l' = input l \<and> start l' = start l \<and> items l' = items l \<and> pos l \<le> pos l'
      \<and> (pos l \<le> length (input l) \<longrightarrow> pos l' \<le> length (input l)))"

text \<open>
  Two more facts that every step keeps. \<open>eofs inp l\<close>: an \<open>itemEOF\<close> that has been
  sent starts at the end of the input. \<open>atMark f l\<close>: when the next state function is
  \<open>lexJournal\<close>, or the loop of \<open>lexPostings\<close> with \<open>expectIndent\<close> true, nothing is
  pending between \<open>start\<close> and the cursor. \<open>sound\<close> puts the three together.
\<close>

definition eofs :: "string \<Rightarrow> lexer \<Rightarrow> bool" where
  "eofs inp l = (\<forall>it \<in> set (items l). item_typ it = itemEOF \<longrightarrow> item_pos it = length inp)"



section \<open>Running for any number of steps\<close>

lemma run_None: "run U n (None, l) = (None, l)"
  by (cases n) simp_all

lemma run_add: "run U (m + n) c = run U n (run U m c)"
proof (induction m arbitrary: c)
  case 0
  show ?case by simp
next
  case (Suc m)
  show ?case
  proof (cases c)
    case (Pair f l)
    then show ?thesis using Suc by (cases f) (simp_all add: run_None)
  qed
qed

lemma lex_steps_add: "lex_steps U (m + n) inp = run U n (lex_steps U m inp)"
  by (simp add: lex_steps_def run_add)

lemma lexJournal_at_eof:
  "length (input l) \<le> pos l \<Longrightarrow>
   lexJournal U l = (Some lexJournalFn, emit itemEOF (l\<lparr>width := 0\<rparr>))"
  by (simp add: lexJournal_def next_rune_at_eof eof_def isSpace_def isEndOfLine_def
      IsDigit_def isAlphaNumeric_def IsLetter_def)

lemma run_EOF:
  "run U n (Some lexJournalFn, \<lparr>input = [], pos = 0, start = 0, width = 0, items = its\<rparr>) =
   (Some lexJournalFn,
    \<lparr>input = [], pos = 0, start = 0, width = 0,
     items = its @ replicate n (Item itemEOF 0 (Src []))\<rparr>)"
proof (induction n arbitrary: its)
  case 0
  show ?case by simp
next
  case (Suc n)
  show ?case
    by (simp add: lexJournal_at_eof emit_def slice_def Suc replicate_app_Cons_same)
qed

text \<open>
  Claim C1: for every input, the stream of items ends with exactly one terminal item,
  an error or an end of input, and after it the producer sends nothing more and
  terminates. The code does not do this: \<open>lexJournal\<close> sends \<open>itemEOF\<close> and
  returns \<open>lexJournal\<close>, not \<open>nil\<close>, so on the empty input the scanner sends one
  \<open>itemEOF\<close> at every step: after \<open>n\<close> steps it has sent \<open>n\<close> of them and is not
  finished.
\<close>

theorem lexJournal_repeats_EOF:
  "lex_steps U n [] =
   (Some lexJournalFn,
    \<lparr>input = [], pos = 0, start = 0, width = 0, items = replicate n (Item itemEOF 0 (Src []))\<rparr>)"
  using run_EOF [of U n "[]"] by (simp add: lex_steps_def lex_new_def)

lemma lexPostings_at_eof:
  "length (input l) \<le> pos l \<Longrightarrow>
   lexPostings U False l = (Some (lexPostingsFn False), l\<lparr>width := 0\<rparr>)"
  by (simp add: lexPostings_def next_rune_at_eof eof_def isEndOfLine_def IsLetter_def)

lemma run_lexPostings_at_eof:
  "length (input l) \<le> pos l \<Longrightarrow> width l = 0 \<Longrightarrow>
   run U n (Some (lexPostingsFn False), l) = (Some (lexPostingsFn False), l)"
proof (induction n)
  case 0
  show ?case by simp
next
  case (Suc n)
  from Suc.prems have "l\<lparr>width := 0\<rparr> = l" by (cases l) simp
  with Suc.prems have "lexPostings U False l = (Some (lexPostingsFn False), l)"
    by (simp only: lexPostings_at_eof)
  with Suc show ?case by simp
qed

text \<open>
  Claim C3: for every input the scanner makes progress, every iteration of a loop
  consumes a rune, and the scan runs to completion. The code does not do this: at
  the end of the input, the loop of \<open>lexPostings\<close> reads \<open>eof\<close>, which none of its
  cases takes, and goes round again. On the input \<open>~\<close> followed by a space (the
  test "periodic xact truncated" of the repository, which expects a last \<open>itemEOF\<close>),
  the scanner is in that loop after two steps and in the same state after any number
  of further steps, with no terminal item sent.
\<close>

theorem lexPostings_spins_at_eof:
  "lex_steps U (2 + n) ''~ '' =
   (Some (lexPostingsFn False),
    \<lparr>input = ''~ '', pos = 2, start = 2, width = 0,
     items = [Item itemTilde 0 (Src ''~''), Item itemSpace 1 (Src '' '')]\<rparr>)"
proof -
  have "lex_steps U 2 ''~ '' =
    (Some (lexPostingsFn False),
     \<lparr>input = ''~ '', pos = 2, start = 2, width = 0,
      items = [Item itemTilde 0 (Src ''~''), Item itemSpace 1 (Src '' '')]\<rparr>)"
    by code_simp
  then show ?thesis
    by (simp only: lex_steps_add) (simp add: run_lexPostings_at_eof)
qed

text \<open>
  Claim C6: the input \<open>account Account\<close> gives the account keyword, a space item,
  an account name \<open>Account\<close> and the end of input. The code does not do this:
  \<open>atTerminator\<close> does not take the end of the input for a terminator, so the second
  word is answered with the error "bad character", and the scan ends there.
\<close>

theorem account_Account_ends_in_error:
  "lex_steps U (5 + n) ''account Account'' =
   (None,
    \<lparr>input = ''account Account'', pos = 15, start = 8, width = 0,
     items = [Item itemAccountKeyword 0 (Src ''account''), Item itemSpace 7 (Src '' ''),
              Item itemError 8 (Sprintf ''bad character %#U'' [eof])]\<rparr>)"
proof -
  have "lex_steps U 5 ''account Account'' =
    (None,
     \<lparr>input = ''account Account'', pos = 15, start = 8, width = 0,
      items = [Item itemAccountKeyword 0 (Src ''account''), Item itemSpace 7 (Src '' ''),
               Item itemError 8 (Sprintf ''bad character %#U'' [eof])]\<rparr>)"
    by code_simp
  then show ?thesis
    by (simp only: lex_steps_add run_None)
qed

text \<open>
  Claim C7: the text and note scan shared by the transaction headers splits the rest
  of the line at the first semicolon into a string item and a note item that runs to
  the end of the line; without a semicolon only the string item is sent, and none
  when the line ends at once. The code does not do this when the line ends with an
  end-of-line character and has no semicolon: \<open>scanStringNote\<close> has consumed
  that character when it sends the string item, and does not back up (as
  \<open>scanNote\<close> does). On the input of the test "simple transaction" of the
  repository, the string item is \<open>Payee\<close> with the line feed, after twelve steps.
\<close>

theorem String_item_holds_the_end_of_line:
  "lex_steps U 12 (''2016/09/09 Payee'' @ [CHR 0x0A] @ '' Account  - 20.00 CAD'') =
   (Some (lexPostingsFn False),
    \<lparr>input = ''2016/09/09 Payee'' @ [CHR 0x0A] @ '' Account  - 20.00 CAD'',
     pos = 17, start = 17, width = 1,
     items = [Item itemDate 0 (Src ''2016/09/09''), Item itemSpace 10 (Src '' ''),
              Item itemString 11 (Src (''Payee'' @ [CHR 0x0A]))]\<rparr>)"
  by code_simp


section \<open>Bytes and runes\<close>

text \<open>A rune below 128 is one byte, and every other rune is at least 128.\<close>

lemma mod_shift: "(q::nat) * d \<le> n \<Longrightarrow> n < q * d + d \<Longrightarrow> n mod d = n - q * d"
proof -
  assume a: "q * d \<le> n" "n < q * d + d"
  then have "n = q * d + (n - q * d)" and "n - q * d < d" by auto
  then have "n mod d = (q * d + (n - q * d)) mod d" by simp
  also have "\<dots> = (n - q * d) mod d" by (simp only: mod_mult_self3)
  also have "\<dots> = n - q * d" using \<open>n - q * d < d\<close> by simp
  finally show ?thesis .
qed

lemma h2: "(194::nat) \<le> n \<Longrightarrow> n < 224 \<Longrightarrow> 2 \<le> n mod 32"
  using mod_shift [of 6 32 n] by simp
lemma h3a: "(225::nat) \<le> n \<Longrightarrow> n < 240 \<Longrightarrow> 1 \<le> n mod 16"
  using mod_shift [of 14 16 n] by simp
lemma h3b: "(160::nat) \<le> m \<Longrightarrow> m \<le> 191 \<Longrightarrow> 32 \<le> m mod 64"
  using mod_shift [of 2 64 m] by simp
lemma h4a: "(241::nat) \<le> n \<Longrightarrow> n \<le> 244 \<Longrightarrow> 1 \<le> n mod 8"
  using mod_shift [of 30 8 n] by simp
lemma h4b: "(144::nat) \<le> m \<Longrightarrow> m \<le> 191 \<Longrightarrow> 16 \<le> m mod 64"
  using mod_shift [of 2 64 m] by simp

lemma decode_ascii:
  "of_char c < (128::nat) \<Longrightarrow> decodeRuneInString (c # s) = (of_char c, 1)"
  by (simp add: decodeRuneInString_def of_nat_of_char)

lemma of_char_int_nonneg: "(0::int) \<le> of_char a"
  by (simp add: of_nat_of_char [where ?'a = int, symmetric])

lemma of_char_int_less: "of_char a < (128::nat) \<Longrightarrow> of_char a < (128::int)"
  by (simp add: of_nat_of_char [where ?'a = int, symmetric])

lemma decode_high:
  assumes "\<not> of_char c < (128::nat)"
  shows "128 \<le> fst (decodeRuneInString (c # s))"
proof -
  define a :: nat where "a = of_char c"
  define b :: nat where "b = map of_char s ! 0"
  have two: "194 \<le> a \<Longrightarrow> a < 224 \<Longrightarrow> 128 \<le> a mod 32 * 64 + x" for x
    using h2 [of a] by simp
  have three: "a = 224 \<Longrightarrow> 160 \<le> b \<Longrightarrow> b \<le> 191 \<Longrightarrow> 128 \<le> a mod 16 * 4096 + b mod 64 * 64 + x" for x
    using h3b [of b] by simp
  have three': "225 \<le> a \<Longrightarrow> a < 240 \<Longrightarrow> 128 \<le> a mod 16 * 4096 + y + x" for x y
    using h3a [of a] by simp
  have four: "a = 240 \<Longrightarrow> 144 \<le> b \<Longrightarrow> b \<le> 191 \<Longrightarrow> 128 \<le> a mod 8 * 262144 + b mod 64 * 4096 + y + x" for x y
    using h4b [of b] by simp
  have four': "241 \<le> a \<Longrightarrow> a \<le> 244 \<Longrightarrow> 128 \<le> a mod 8 * 262144 + z + y + x" for x y z
    using h4a [of a] by simp
  have cases: "a < 194 \<or> 244 < a \<or> (194 \<le> a \<and> a < 224) \<or> a = 224 \<or> (225 \<le> a \<and> a < 240)
      \<or> a = 240 \<or> (241 \<le> a \<and> a \<le> 244)" by arith
  show ?thesis
    using assms cases two three three' four four'
    unfolding a_def b_def
    by (auto simp: decodeRuneInString_def Let_def RuneError_def not_less simp del: of_nat_add of_nat_mult)
qed


lemma drop_at: "p < length s \<Longrightarrow> drop p s = s ! p # drop (Suc p) s"
  by (simp add: Cons_nth_drop_Suc)

lemma next_rune_ascii:
  assumes "pos l < length (input l)" and "of_char (input l ! pos l) < (128::nat)"
  shows "next_rune l = (of_char (input l ! pos l), l\<lparr>width := 1, pos := pos l + 1\<rparr>)"
  using assms by (simp add: next_rune_def drop_at decode_ascii)

lemma next_rune_high:
  assumes "pos l < length (input l)" and "\<not> of_char (input l ! pos l) < (128::nat)"
  shows "128 \<le> fst (next_rune l)"
  using assms decode_high [of "input l ! pos l" "drop (Suc (pos l)) (input l)"]
  by (simp add: next_rune_def drop_at case_prod_unfold Let_def)

lemma next_rune_is_char:
  assumes "of_char a < (128::nat)"
  shows "fst (next_rune l) = of_char a \<longleftrightarrow> pos l < length (input l) \<and> input l ! pos l = a"
proof (cases "pos l < length (input l)")
  case False
  then have "fst (next_rune l) = - 1" by (simp add: next_rune_def eof_def)
  then show ?thesis using False of_char_int_nonneg [of a] by auto
next
  case True
  show ?thesis
  proof (cases "of_char (input l ! pos l) < (128::nat)")
    case True
    with \<open>pos l < length (input l)\<close> show ?thesis
      by (auto simp: next_rune_ascii)
  next
    case False
    with True have "128 \<le> fst (next_rune l)" by (rule next_rune_high)
    then show ?thesis using False assms True of_char_int_less [of a] by auto
  qed
qed

lemma isSpace_next_rune:
  "isSpace (fst (next_rune l)) \<longleftrightarrow> pos l < length (input l) \<and> spaceChar (input l ! pos l)"
  using next_rune_is_char [of "CHR '' ''" l] next_rune_is_char [of "CHR 0x09" l]
  by (auto simp: isSpace_def spaceChar_def)

lemma isEndOfLine_next_rune:
  "isEndOfLine (fst (next_rune l)) \<longleftrightarrow> pos l < length (input l) \<and> eolChar (input l ! pos l)"
  using next_rune_is_char [of "CHR 0x0D" l] next_rune_is_char [of "CHR 0x0A" l]
  by (auto simp: isEndOfLine_def eolChar_def)

lemma next_rune_spaceChar:
  "pos l < length (input l) \<Longrightarrow> spaceChar (input l ! pos l) \<Longrightarrow>
   snd (next_rune l) = l\<lparr>width := 1, pos := pos l + 1\<rparr>"
  by (auto simp: spaceChar_def next_rune_ascii)

lemma next_rune_eolChar:
  "pos l < length (input l) \<Longrightarrow> eolChar (input l ! pos l) \<Longrightarrow>
   snd (next_rune l) = l\<lparr>width := 1, pos := pos l + 1\<rparr>"
  by (auto simp: eolChar_def next_rune_ascii)

text \<open>What the loops leave alone, and how far they go.\<close>

lemma spaceRun_frame [simp]:
  "input (spaceRun l) = input l" "start (spaceRun l) = start l" "items (spaceRun l) = items l"
  by (induction l rule: spaceRun.induct; subst spaceRun.simps;
      simp add: peek_eq Let_def)+

lemma spaceRun_pos:
  "pos (spaceRun l) = pos l + length (takeWhile spaceChar (drop (pos l) (input l)))"
proof (induction l rule: spaceRun.induct)
  case (1 l)
  show ?case
  proof (cases "isSpace (fst (next_rune l))")
    case True
    then have p: "pos l < length (input l)" and c: "spaceChar (input l ! pos l)"
      by (simp_all add: isSpace_next_rune)
    have "pos (spaceRun l) = pos (spaceRun (snd (next_rune l)))"
      using True by (subst spaceRun.simps) (simp add: peek_eq)
    also have "\<dots> = pos (snd (next_rune l)) +
        length (takeWhile spaceChar (drop (pos (snd (next_rune l))) (input l)))"
      using "1.IH" [of "peek l" "fst (next_rune l)" "snd (peek l)"] True
      by (simp add: peek_eq)
    finally show ?thesis using p c
      by (simp add: next_rune_spaceChar drop_at)
  next
    case False
    then have "pos (spaceRun l) = pos l"
      by (subst spaceRun.simps) (simp add: peek_eq)
    moreover have "takeWhile spaceChar (drop (pos l) (input l)) = []"
      using False by (cases "pos l < length (input l)") (simp_all add: isSpace_next_rune drop_at)
    ultimately show ?thesis by simp
  qed
qed

lemma slice_takeWhile:
  "slice s p (p + length (takeWhile P (drop p s))) = takeWhile P (drop p s)"
  by (simp add: slice_def takeWhile_eq_take [symmetric])

lemma slice_one: "p < length s \<Longrightarrow> slice s p (Suc p) = [s ! p]"
  by (simp add: slice_def drop_at)

lemma takeWhile_spaceChar_Cons:
  "p < length s \<Longrightarrow> spaceChar (s ! p) \<Longrightarrow>
   takeWhile spaceChar (drop p s) = s ! p # takeWhile spaceChar (drop (Suc p) s)"
  by (simp add: drop_at)

lemma scanSpaces_at_space:
  assumes "pos l < length (input l)" and "spaceChar (input l ! pos l)" and "start l = pos l"
  shows "scanSpaces l =
    (True, emit itemSpace (spaceRun l))"
    and "items (emit itemSpace (spaceRun l)) =
      items l @ [Item itemSpace (pos l) (Src (takeWhile spaceChar (drop (pos l) (input l))))]"
    and "pos (emit itemSpace (spaceRun l)) =
      pos l + length (takeWhile spaceChar (drop (pos l) (input l)))"
    and "start (emit itemSpace (spaceRun l)) =
      pos l + length (takeWhile spaceChar (drop (pos l) (input l)))"
proof -
  let ?sp = "takeWhile spaceChar (drop (pos l) (input l))"
  have cur: "current (spaceRun l) = ?sp"
    using assms(3) by (simp add: current_def spaceRun_pos slice_takeWhile)
  moreover have "?sp \<noteq> []" using assms by (simp add: drop_at)
  ultimately show "scanSpaces l = (True, emit itemSpace (spaceRun l))"
    by (simp add: scanSpaces_def Let_def)
  show "items (emit itemSpace (spaceRun l)) = items l @ [Item itemSpace (pos l) (Src ?sp)]"
    using cur assms(3) by (simp add: emit_def current_def)
  show "pos (emit itemSpace (spaceRun l)) = pos l + length ?sp"
    by (simp add: emit_def spaceRun_pos)
  show "start (emit itemSpace (spaceRun l)) = pos l + length ?sp"
    by (simp add: emit_def spaceRun_pos)
qed

section \<open>The postings block after an end of line\<close>

text \<open>
  Claim C8, as amended: in \<open>lexPostings\<close> with \<open>expectIndent\<close> true and the item
  starting at the cursor (the state right after an \<open>itemEOL\<close>): if the next rune is
  a space or a tab, the whole run is sent as one space item and the function is
  entered again; if it is an end-of-line character, it is sent as \<open>itemEOL\<close> and the
  loop goes on with \<open>expectIndent\<close> still true; in every other case the rune is
  backed up and the next state is \<open>lexJournal\<close>, with nothing sent or consumed.
\<close>

theorem lexPostings_expecting_indent:
  assumes "start l = pos l"
  shows "let res = lexPostings U True l; r = fst (peek l);
             sp = takeWhile spaceChar (drop (pos l) (input l))
         in (isSpace r \<longrightarrow>
               fst res = Some (lexPostingsFn False)
               \<and> items (snd res) = items l @ [Item itemSpace (pos l) (Src sp)]
               \<and> pos (snd res) = pos l + length sp \<and> start (snd res) = pos (snd res))
          \<and> (isEndOfLine r \<longrightarrow>
               fst res = Some (lexPostingsFn True)
               \<and> items (snd res) = items l @ [Item itemEOL (pos l) (Src [input l ! pos l])]
               \<and> pos (snd res) = pos l + 1 \<and> start (snd res) = pos (snd res))
          \<and> (\<not> isSpace r \<and> \<not> isEndOfLine r \<longrightarrow>
               fst res = Some lexJournalFn \<and> items (snd res) = items l
               \<and> pos (snd res) = pos l \<and> start (snd res) = start l)"
proof -
  let ?r = "fst (next_rune l)" and ?l1 = "snd (next_rune l)"
  let ?sp = "takeWhile spaceChar (drop (pos l) (input l))"
  have res: "lexPostings U True l =
      (if isEndOfLine ?r then (Some (lexPostingsFn True), emit itemEOL ?l1)
       else if isSpace ?r then (Some (lexPostingsFn False), snd (scanSpaces ?l1))
       else (Some lexJournalFn, backup ?l1))"
    by (simp add: lexPostings_def case_prod_unfold Let_def)
  have not_both: "\<not> (isSpace ?r \<and> isEndOfLine ?r)"
    by (auto simp: isSpace_def isEndOfLine_def)
  have sp: ?thesis if "isSpace ?r"
  proof -
    from that have p: "pos l < length (input l)" and c: "spaceChar (input l ! pos l)"
      by (simp_all add: isSpace_next_rune)
    then have l1: "?l1 = l\<lparr>width := 1, pos := pos l + 1\<rparr>" by (rule next_rune_spaceChar)
    have run: "pos (spaceRun ?l1) = pos l + length ?sp" "start (spaceRun ?l1) = pos l"
      "input (spaceRun ?l1) = input l" "items (spaceRun ?l1) = items l"
      using p c assms by (simp_all add: spaceRun_pos l1 drop_at)
    then have cur: "current (spaceRun ?l1) = ?sp"
      by (simp add: current_def slice_takeWhile)
    moreover have "?sp \<noteq> []" using p c by (simp add: drop_at)
    ultimately have "snd (scanSpaces ?l1) = emit itemSpace (spaceRun ?l1)"
      by (simp add: scanSpaces_def Let_def)
    with that not_both res run cur show ?thesis
      by (simp add: peek_eq emit_def Let_def current_def)
  qed
  have eol: ?thesis if "isEndOfLine ?r"
  proof -
    from that have p: "pos l < length (input l)" and c: "eolChar (input l ! pos l)"
      by (simp_all add: isEndOfLine_next_rune)
    then have l1: "?l1 = l\<lparr>width := 1, pos := pos l + 1\<rparr>" by (rule next_rune_eolChar)
    with that not_both res p assms show ?thesis
      by (simp add: peek_eq emit_def Let_def slice_one)
  qed
  have other: ?thesis if "\<not> isSpace ?r" "\<not> isEndOfLine ?r"
    using that res by (simp add: peek_eq backup_next_rune Let_def)
  from sp eol other show ?thesis by blast
qed

text \<open>The three cases of the theorem, each at an input of its own.\<close>

theorem lexPostings_expecting_indent_witness:
  "start (lexer_at ''  Ab'' 0 0) = pos (lexer_at ''  Ab'' 0 0)
   \<and> isSpace (fst (peek (lexer_at ''  Ab'' 0 0)))
   \<and> fst (lexPostings latin1 True (lexer_at ''  Ab'' 0 0)) = Some (lexPostingsFn False)
   \<and> items (snd (lexPostings latin1 True (lexer_at ''  Ab'' 0 0))) = [Item itemSpace 0 (Src ''  '')]
   \<and> pos (snd (lexPostings latin1 True (lexer_at ''  Ab'' 0 0))) = 2
   \<and> isEndOfLine (fst (peek (lexer_at [CHR 0x0A, CHR ''x''] 0 0)))
   \<and> fst (lexPostings latin1 True (lexer_at [CHR 0x0A, CHR ''x''] 0 0)) = Some (lexPostingsFn True)
   \<and> items (snd (lexPostings latin1 True (lexer_at [CHR 0x0A, CHR ''x''] 0 0))) =
       [Item itemEOL 0 (Src [CHR 0x0A])]
   \<and> \<not> isSpace (fst (peek (lexer_at ''account'' 0 0)))
   \<and> \<not> isEndOfLine (fst (peek (lexer_at ''account'' 0 0)))
   \<and> fst (lexPostings latin1 True (lexer_at ''account'' 0 0)) = Some lexJournalFn
   \<and> items (snd (lexPostings latin1 True (lexer_at ''account'' 0 0))) = []
   \<and> pos (snd (lexPostings latin1 True (lexer_at ''account'' 0 0))) = 0"
proof -
  have a: "isSpace (fst (peek (lexer_at ''  Ab'' 0 0)))" by code_simp
  have b: "isEndOfLine (fst (peek (lexer_at [CHR 0x0A, CHR ''x''] 0 0)))" by code_simp
  have c: "\<not> isSpace (fst (peek (lexer_at ''account'' 0 0)))"
    "\<not> isEndOfLine (fst (peek (lexer_at ''account'' 0 0)))" by code_simp+
  have s: "start (lexer_at inp 0 0) = pos (lexer_at inp 0 0)" for inp
    by (simp add: lexer_at_def)
  show ?thesis
    using lexPostings_expecting_indent [where l = "lexer_at ''  Ab'' 0 0" and U = latin1, OF s]
      lexPostings_expecting_indent
        [where l = "lexer_at [CHR 0x0A, CHR ''x''] 0 0" and U = latin1, OF s]
      lexPostings_expecting_indent [where l = "lexer_at ''account'' 0 0" and U = latin1, OF s]
      a b c
    unfolding Let_def
    by (simp add: lexer_at_def spaceChar_def)
qed

text \<open>
  Claim C8 as it was stated sends every rune that is not a space or a tab back to
  \<open>lexJournal\<close>. After three steps on a periodic transaction followed by an empty
  line, the scanner is in \<open>lexPostings\<close> with \<open>expectIndent\<close> true before a line
  feed; the fourth step sends the line feed as \<open>itemEOL\<close> and stays in
  \<open>lexPostings\<close>.
\<close>

theorem lexPostings_keeps_blank_line:
  "lex_steps latin1 3 (''~;n'' @ [CHR 0x0A, CHR 0x0A] @ '' Ab'') =
     (Some (lexPostingsFn True),
      \<lparr>input = ''~;n'' @ [CHR 0x0A, CHR 0x0A] @ '' Ab'', pos = 4, start = 4, width = 1,
       items = [Item itemTilde 0 (Src ''~''), Item itemNote 1 (Src '';n''),
                Item itemEOL 3 (Src [CHR 0x0A])]\<rparr>)
   \<and> \<not> isSpace (fst (peek
        \<lparr>input = ''~;n'' @ [CHR 0x0A, CHR 0x0A] @ '' Ab'', pos = 4, start = 4, width = 1,
         items = [Item itemTilde 0 (Src ''~''), Item itemNote 1 (Src '';n''),
                  Item itemEOL 3 (Src [CHR 0x0A])]\<rparr>))
   \<and> lex_steps latin1 4 (''~;n'' @ [CHR 0x0A, CHR 0x0A] @ '' Ab'') =
     (Some (lexPostingsFn True),
      \<lparr>input = ''~;n'' @ [CHR 0x0A, CHR 0x0A] @ '' Ab'', pos = 5, start = 5, width = 1,
       items = [Item itemTilde 0 (Src ''~''), Item itemNote 1 (Src '';n''),
                Item itemEOL 3 (Src [CHR 0x0A]), Item itemEOL 4 (Src [CHR 0x0A])]\<rparr>)"
  by code_simp

lemma emit_simps [simp]:
  "input (emit t l) = input l" "pos (emit t l) = pos l" "start (emit t l) = pos l"
  "items (emit t l) = items l @ [Item t (start l) (Src (slice (input l) (start l) (pos l)))]"
  by (simp_all add: emit_def)

lemma errorf_simps [simp]:
  "fst (errorf f a l) = None"
  "items (snd (errorf f a l)) = items l @ [Item itemError (start l) (Sprintf f a)]"
  "input (snd (errorf f a l)) = input l" "pos (snd (errorf f a l)) = pos l"
  "start (snd (errorf f a l)) = start l"
  by (simp_all add: errorf_def)

section \<open>The date of a plain transaction\<close>

text \<open>
  Claim C4, as amended: in \<open>lexPlainXactDate\<close>, a rune that \<open>unicode.IsDigit\<close>
  accepts (an ASCII digit or any other decimal digit of Unicode) or one of the
  separators \<open>.\<close> \<open>-\<close> \<open>/\<close> is consumed and the state stays the same; on a
  space or a tab, a date item is sent for everything accumulated, the run of spaces
  is sent as a space item and the next state is \<open>lexPlainXactRest\<close>; at the end
  of the input the error is "unexpected end-of-file", on an end-of-line character
  "unexpected end-of-line", on any other rune "invalid character in transaction
  date specification" with the rune; after each error the next state is \<open>nil\<close>.
\<close>

theorem lexPlainXactDate_outcomes:
  "let res = lexPlainXactDate U l; r = fst (peek l);
       sp = takeWhile spaceChar (drop (pos l) (input l))
   in (IsDigit U r \<or> r = of_char CHR ''.'' \<or> r = of_char CHR ''-'' \<or> r = of_char CHR ''/'' \<longrightarrow>
         fst res = Some lexPlainXactDateFn \<and> items (snd res) = items l
         \<and> start (snd res) = start l \<and> pos l < pos (snd res))
    \<and> (isSpace r \<longrightarrow>
         fst res = Some lexPlainXactRestFn
         \<and> items (snd res) =
             items l @ [Item itemDate (start l) (Src (slice (input l) (start l) (pos l))),
                        Item itemSpace (pos l) (Src sp)]
         \<and> pos (snd res) = pos l + length sp \<and> start (snd res) = pos (snd res))
    \<and> (r = eof \<longrightarrow>
         fst res = None
         \<and> items (snd res) =
             items l @ [Item itemError (start l) (Sprintf ''unexpected end-of-file'' [])])
    \<and> (isEndOfLine r \<longrightarrow>
         fst res = None
         \<and> items (snd res) =
             items l @ [Item itemError (start l) (Sprintf ''unexpected end-of-line'' [])])
    \<and> (\<not> (IsDigit U r \<or> r = of_char CHR ''.'' \<or> r = of_char CHR ''-'' \<or> r = of_char CHR ''/'')
        \<and> \<not> isSpace r \<and> r \<noteq> eof \<and> \<not> isEndOfLine r \<longrightarrow>
         fst res = None
         \<and> items (snd res) =
             items l @ [Item itemError (start l)
               (Sprintf ''invalid character in transaction date specification: %#U'' [r])])"
proof -
  let ?r = "fst (next_rune l)" and ?l1 = "l\<lparr>width := width (snd (next_rune l))\<rparr>"
  let ?sp = "takeWhile spaceChar (drop (pos l) (input l))"
  let ?sep = "IsDigit U ?r \<or> ?r = of_char CHR ''.'' \<or> ?r = of_char CHR ''-'' \<or> ?r = of_char CHR ''/''"
  have res: "lexPlainXactDate U l =
      (if ?sep then (Some lexPlainXactDateFn, snd (next_rune l))
       else if isSpace ?r then (Some lexPlainXactRestFn, snd (scanSpaces (emit itemDate ?l1)))
       else if ?r = eof then errorf ''unexpected end-of-file'' [] ?l1
       else if isEndOfLine ?r then errorf ''unexpected end-of-line'' [] ?l1
       else errorf ''invalid character in transaction date specification: %#U'' [?r] ?l1)"
    by (simp add: lexPlainXactDate_def peek_eq case_prod_unfold Let_def)
  have excl: "isSpace ?r \<Longrightarrow> \<not> ?sep" "?r = eof \<Longrightarrow> \<not> ?sep" "isEndOfLine ?r \<Longrightarrow> \<not> ?sep"
    "isSpace ?r \<Longrightarrow> ?r \<noteq> eof" "isEndOfLine ?r \<Longrightarrow> ?r \<noteq> eof" "isEndOfLine ?r \<Longrightarrow> \<not> isSpace ?r"
    by (auto simp: isSpace_def isEndOfLine_def IsDigit_def eof_def)
  have adv: "pos l < pos (snd (next_rune l))" if "?sep"
  proof -
    from that have "?r \<noteq> eof" by (auto simp: IsDigit_def eof_def)
    then show ?thesis using next_rune_advance(1) [of l] by (simp add: next_rune_eof)
  qed
  have sp: "snd (scanSpaces (emit itemDate ?l1)) = emit itemSpace (spaceRun (emit itemDate ?l1))"
    "items (emit itemSpace (spaceRun (emit itemDate ?l1))) =
       items l @ [Item itemDate (start l) (Src (slice (input l) (start l) (pos l))),
                  Item itemSpace (pos l) (Src ?sp)]"
    "pos (emit itemSpace (spaceRun (emit itemDate ?l1))) = pos l + length ?sp"
    "start (emit itemSpace (spaceRun (emit itemDate ?l1))) = pos l + length ?sp"
    if "isSpace ?r"
  proof -
    from that have "pos (emit itemDate ?l1) < length (input (emit itemDate ?l1))"
      and "spaceChar (input (emit itemDate ?l1) ! pos (emit itemDate ?l1))"
      and "start (emit itemDate ?l1) = pos (emit itemDate ?l1)"
      by (simp_all add: isSpace_next_rune)
    from scanSpaces_at_space [OF this]
    show "snd (scanSpaces (emit itemDate ?l1)) = emit itemSpace (spaceRun (emit itemDate ?l1))"
      "items (emit itemSpace (spaceRun (emit itemDate ?l1))) =
       items l @ [Item itemDate (start l) (Src (slice (input l) (start l) (pos l))),
                  Item itemSpace (pos l) (Src ?sp)]"
      "pos (emit itemSpace (spaceRun (emit itemDate ?l1))) = pos l + length ?sp"
      "start (emit itemSpace (spaceRun (emit itemDate ?l1))) = pos l + length ?sp"
      by simp_all
  qed
  show ?thesis
    unfolding Let_def res peek_eq fst_conv
    using excl adv sp by (auto simp del: emit_simps)
qed

text \<open>The five cases of the theorem, each at an input of its own.\<close>

theorem lexPlainXactDate_outcomes_witness:
  "fst (peek (lexer_at ''2016/09'' 0 4)) = of_char CHR ''/''
   \<and> fst (lexPlainXactDate latin1 (lexer_at ''2016/09'' 0 4)) = Some lexPlainXactDateFn
   \<and> items (snd (lexPlainXactDate latin1 (lexer_at ''2016/09'' 0 4))) = []
   \<and> isSpace (fst (peek (lexer_at ''2016/09/09  x'' 0 10)))
   \<and> fst (lexPlainXactDate latin1 (lexer_at ''2016/09/09  x'' 0 10)) = Some lexPlainXactRestFn
   \<and> items (snd (lexPlainXactDate latin1 (lexer_at ''2016/09/09  x'' 0 10))) =
       [Item itemDate 0 (Src ''2016/09/09''), Item itemSpace 10 (Src ''  '')]
   \<and> fst (peek (lexer_at ''2016/09/09'' 0 10)) = eof
   \<and> items (snd (lexPlainXactDate latin1 (lexer_at ''2016/09/09'' 0 10))) =
       [Item itemError 0 (Sprintf ''unexpected end-of-file'' [])]
   \<and> isEndOfLine (fst (peek (lexer_at (''2016/09/09'' @ [CHR 0x0A]) 0 10)))
   \<and> items (snd (lexPlainXactDate latin1 (lexer_at (''2016/09/09'' @ [CHR 0x0A]) 0 10))) =
       [Item itemError 0 (Sprintf ''unexpected end-of-line'' [])]
   \<and> fst (peek (lexer_at ''2016/09eee'' 0 7)) = of_char CHR ''e''
   \<and> items (snd (lexPlainXactDate latin1 (lexer_at ''2016/09eee'' 0 7))) =
       [Item itemError 0
         (Sprintf ''invalid character in transaction date specification: %#U''
           [of_char CHR ''e''])]"
proof -
  have a: "fst (peek (lexer_at ''2016/09'' 0 4)) = of_char CHR ''/''" by code_simp
  have b: "isSpace (fst (peek (lexer_at ''2016/09/09  x'' 0 10)))" by code_simp
  have c: "fst (peek (lexer_at ''2016/09/09'' 0 10)) = eof" by code_simp
  have d: "isEndOfLine (fst (peek (lexer_at (''2016/09/09'' @ [CHR 0x0A]) 0 10)))" by code_simp
  have e: "fst (peek (lexer_at ''2016/09eee'' 0 7)) = of_char CHR ''e''" by code_simp
  have e': "\<not> isSpace (of_char CHR ''e'')" "\<not> isEndOfLine (of_char CHR ''e'')"
    "\<not> IsDigit latin1 (of_char CHR ''e'')" "of_char CHR ''e'' \<noteq> eof"
    by (simp_all add: isSpace_def isEndOfLine_def IsDigit_def eof_def)
  show ?thesis
    using lexPlainXactDate_outcomes [of latin1 "lexer_at ''2016/09'' 0 4"]
      lexPlainXactDate_outcomes [of latin1 "lexer_at ''2016/09/09  x'' 0 10"]
      lexPlainXactDate_outcomes [of latin1 "lexer_at ''2016/09/09'' 0 10"]
      lexPlainXactDate_outcomes [of latin1 "lexer_at (''2016/09/09'' @ [CHR 0x0A]) 0 10"]
      lexPlainXactDate_outcomes [of latin1 "lexer_at ''2016/09eee'' 0 7"]
      b d e'
    unfolding Let_def a c e
    by (simp add: lexer_at_def spaceChar_def slice_def)
qed

text \<open>
  Claim C4 as it was stated speaks of ASCII digits, so that any other rune would be an
  error. With the Arabic-Indic digit zero (U+0660, the bytes D9 A0) after the first
  digit, the scanner consumes the rune and later sends it inside the date item.
\<close>

theorem lexPlainXactDate_takes_unicode_digit:
  "lex_steps arabicIndic 1 [CHR ''2'', CHR 0xD9, CHR 0xA0, CHR '' ''] =
     (Some lexPlainXactDateFn,
      \<lparr>input = [CHR ''2'', CHR 0xD9, CHR 0xA0, CHR '' ''], pos = 1, start = 0, width = 1,
       items = []\<rparr>)
   \<and> fst (peek \<lparr>input = [CHR ''2'', CHR 0xD9, CHR 0xA0, CHR '' ''], pos = 1, start = 0,
               width = 1, items = []\<rparr>) = 0x660
   \<and> lex_steps arabicIndic 2 [CHR ''2'', CHR 0xD9, CHR 0xA0, CHR '' ''] =
     (Some lexPlainXactDateFn,
      \<lparr>input = [CHR ''2'', CHR 0xD9, CHR 0xA0, CHR '' ''], pos = 3, start = 0, width = 2,
       items = []\<rparr>)
   \<and> lex_steps arabicIndic 3 [CHR ''2'', CHR 0xD9, CHR 0xA0, CHR '' ''] =
     (Some lexPlainXactRestFn,
      \<lparr>input = [CHR ''2'', CHR 0xD9, CHR 0xA0, CHR '' ''], pos = 4, start = 4, width = 0,
       items = [Item itemDate 0 (Src [CHR ''2'', CHR 0xD9, CHR 0xA0]),
                Item itemSpace 3 (Src '' '')]\<rparr>)"
  by code_simp

section \<open>Barewords\<close>

lemma bareword_Nil [simp]: "bareword U [] = []"
  by (simp add: bareword.simps)

lemma upd_pos_same [simp]: "l\<lparr>pos := pos l\<rparr> = l"
  by (cases l) simp




lemma lexIdentifier_bareword:
  "lexIdentifier U l =
     lexIdentifier_word
       (fst (next_rune (l\<lparr>pos := pos l + length (bareword U (drop (pos l) (input l)))\<rparr>)))
       (snd (next_rune (l\<lparr>pos := pos l + length (bareword U (drop (pos l) (input l)))\<rparr>)))"
proof (induction U l rule: lexIdentifier.induct)
  case (1 U l)
  let ?s = "drop (pos l) (input l)"
  show ?case
  proof (cases "isAlphaNumeric U (fst (next_rune l))")
    case True
    then have ne: "fst (next_rune l) \<noteq> eof" by (rule isAlphaNumeric_not_eof)
    then have p: "pos l < length (input l)" by (simp add: next_rune_eof)
    obtain r w where d: "decodeRuneInString ?s = (r, w)" by (cases "decodeRuneInString ?s")
    from p d have nr: "next_rune l = (r, l\<lparr>width := w, pos := pos l + w\<rparr>)"
      by (simp add: next_rune_def)
    from p have "?s \<noteq> []" by simp
    with d decodeRuneInString_width [of ?s] have w: "w \<le> length ?s" by simp
    from True nr have r: "isAlphaNumeric U r" by simp
    have bw: "bareword U ?s = take w ?s @ bareword U (drop w ?s)"
      using \<open>?s \<noteq> []\<close> d r by (subst bareword.simps) simp
    have len: "length (bareword U ?s) = w + length (bareword U (drop (pos l + w) (input l)))"
      using w by (simp add: bw add.commute)
    have "lexIdentifier U l = lexIdentifier U (l\<lparr>width := w, pos := pos l + w\<rparr>)"
      using nr r by (subst lexIdentifier.simps) simp
    also have "\<dots> = lexIdentifier_word
       (fst (next_rune (l\<lparr>pos := pos l + w + length (bareword U (drop (pos l + w) (input l)))\<rparr>)))
       (snd (next_rune (l\<lparr>pos := pos l + w + length (bareword U (drop (pos l + w) (input l)))\<rparr>)))"
    proof -
      let ?l1 = "l\<lparr>width := w, pos := pos l + w\<rparr>"
      let ?n = "length (bareword U (drop (pos l + w) (input l)))"
      have eq: "?l1\<lparr>pos := pos ?l1 + length (bareword U (drop (pos ?l1) (input ?l1)))\<rparr>
          = (l\<lparr>pos := pos l + w + ?n\<rparr>)\<lparr>width := w\<rparr>"
        by simp
      show ?thesis
        unfolding "1.IH" [OF refl nr [symmetric] r] eq next_rune_width by simp
    qed
    finally show ?thesis unfolding len add.assoc .
  next
    case False
    have "bareword U ?s = []"
    proof (cases "pos l < length (input l)")
      case True
      then show ?thesis using False
        by (subst bareword.simps) (simp add: next_rune_def case_prod_unfold Let_def)
    next
      case False
      then show ?thesis by simp
    qed
    moreover have "lexIdentifier U l = lexIdentifier_word (fst (next_rune l)) (snd (next_rune l))"
      using False by (subst lexIdentifier.simps) (simp add: case_prod_unfold Let_def)
    ultimately show ?thesis by simp
  qed
qed

lemma lexIdentifier_word_next:
  "lexIdentifier_word (fst (next_rune l)) (snd (next_rune l)) =
     (let r = fst (next_rune l);
          l3 = l\<lparr>width := width (snd (next_rune l))\<rparr>;
          word = slice (input l) (start l) (pos l)
      in if \<not> (isSpace r \<or> isEndOfLine r) then errorf ''bad character %#U'' [r] l3
         else if word = ''include'' then
           (let res = scanStringToEOL (snd (scanSpaces (emit itemInclude l3)))
            in if \<not> fst res then errorf missingFilename [] (snd res)
               else (Some lexJournalFn, snd res))
         else if word = ''end'' then (Some lexIdentifierFn, snd (scanSpaces (emit itemEnd l3)))
         else if iota (keyAt word) > iota itemKeyword then
           (Some lexJournalFn, emit (keyAt word) l3)
         else (Some lexJournalFn, emit itemIdentifier l3))"
  by (simp add: lexIdentifier_word_def backup_next_rune atTerminator_def peek_eq
      case_prod_unfold Let_def)

text \<open>
  Claim C10: a bareword that runs to the end of the input (and so is followed by
  neither a space nor an end-of-line character) is answered with the error "bad
  character" for the rune \<open>eof\<close>, and the scan halts; the word is not sent as an
  identifier or a keyword.
\<close>

theorem bareword_before_eof_is_an_error:
  assumes "bareword U (drop (pos l) (input l)) = drop (pos l) (input l)"
  shows "fst (lexIdentifier U l) = None
    \<and> items (snd (lexIdentifier U l)) =
        items l @ [Item itemError (start l) (Sprintf ''bad character %#U'' [eof])]"
proof -
  let ?l' = "l\<lparr>pos := pos l + length (bareword U (drop (pos l) (input l)))\<rparr>"
  have "length (input ?l') \<le> pos ?l'" using assms by simp
  then have nr: "next_rune ?l' = (eof, ?l'\<lparr>width := 0\<rparr>)" by (rule next_rune_at_eof)
  have "lexIdentifier U l = lexIdentifier_word (fst (next_rune ?l')) (snd (next_rune ?l'))"
    by (rule lexIdentifier_bareword)
  also have "\<dots> = errorf ''bad character %#U'' [eof] (?l'\<lparr>width := 0\<rparr>)"
    unfolding lexIdentifier_word_next
    by (simp add: nr Let_def isSpace_def isEndOfLine_def eof_def)
  finally have "lexIdentifier U l = errorf ''bad character %#U'' [eof] (?l'\<lparr>width := 0\<rparr>)" .
  then show ?thesis by simp
qed

text \<open>The second word of the input \<open>account Account\<close>.\<close>

theorem bareword_before_eof_is_an_error_witness:
  "bareword latin1 (drop (pos (lexer_at ''account Account'' 8 8))
       (input (lexer_at ''account Account'' 8 8)))
     = drop (pos (lexer_at ''account Account'' 8 8)) (input (lexer_at ''account Account'' 8 8))
   \<and> fst (lexIdentifier latin1 (lexer_at ''account Account'' 8 8)) = None
   \<and> items (snd (lexIdentifier latin1 (lexer_at ''account Account'' 8 8))) =
       [Item itemError 8 (Sprintf ''bad character %#U'' [eof])]"
proof -
  have a: "bareword latin1 (drop (pos (lexer_at ''account Account'' 8 8))
       (input (lexer_at ''account Account'' 8 8)))
     = drop (pos (lexer_at ''account Account'' 8 8)) (input (lexer_at ''account Account'' 8 8))"
    by code_simp
  from bareword_before_eof_is_an_error [OF a] a show ?thesis
    by (simp add: lexer_at_def)
qed

lemma scanStringToEOL_loop_frame [simp]:
  "input (scanStringToEOL_loop l) = input l" "start (scanStringToEOL_loop l) = start l"
  "items (scanStringToEOL_loop l) = items l"
  by (induction l rule: scanStringToEOL_loop.induct; subst scanStringToEOL_loop.simps;
      simp add: peek_eq Let_def)+

lemma scanSpaces_items: "\<exists>ys. items (snd (scanSpaces l)) = items l @ ys"
  by (simp add: scanSpaces_def Let_def)

lemma scanStringToEOL_items: "\<exists>ys. items (snd (scanStringToEOL l)) = items l @ ys"
  by (simp add: scanStringToEOL_def Let_def)

lemma take_Suc_append: "take (Suc (length xs)) ((xs @ [x]) @ ys) = xs @ [x]"
  by simp

lemma keyAt_lookup:
  "(if iota (keyAt word) > iota itemKeyword then keyAt word else itemIdentifier) =
   (case map_of key word of Some k \<Rightarrow> k | None \<Rightarrow> itemIdentifier)"
  by (simp add: keyAt_def key_def)

text \<open>
  Claim C5, as amended: for a bareword that is followed by a space, a tab or an
  end-of-line character, the kind of the item is looked up in the table \<open>key\<close> with
  the exact text of the word (the table holds \<open>include\<close>, \<open>account\<close>, \<open>end\<close>,
  \<open>alias\<close> and the capital \<open>P\<close>; nothing is put in lower case), and a word that
  is not in the table is sent as \<open>itemIdentifier\<close>. The item for the word is the
  first one sent, and for every word but \<open>include\<close> and \<open>end\<close> the only one,
  with \<open>lexJournal\<close> as the next state.
\<close>

theorem bareword_kind_is_looked_up:
  assumes "w = bareword U (drop (pos l) (input l))"
    and "pos l + length w < length (input l)"
    and "spaceChar (input l ! (pos l + length w)) \<or> eolChar (input l ! (pos l + length w))"
  shows "let word = slice (input l) (start l) (pos l + length w);
             res = lexIdentifier U l;
             it = Item (case map_of key word of Some k \<Rightarrow> k | None \<Rightarrow> itemIdentifier)
                    (start l) (Src word)
         in take (Suc (length (items l))) (items (snd res)) = items l @ [it]
          \<and> (word \<noteq> ''include'' \<and> word \<noteq> ''end'' \<longrightarrow>
               fst res = Some lexJournalFn \<and> items (snd res) = items l @ [it])"
proof -
  let ?l' = "l\<lparr>pos := pos l + length w\<rparr>"
  let ?l3 = "?l'\<lparr>width := width (snd (next_rune ?l'))\<rparr>"
  let ?word = "slice (input l) (start l) (pos l + length w)"
  let ?it = "\<lambda>k. Item k (start l) (Src ?word)"
  have tm: "isSpace (fst (next_rune ?l')) \<or> isEndOfLine (fst (next_rune ?l'))"
    using assms(2,3) by (simp add: isSpace_next_rune isEndOfLine_next_rune)
  have lex: "lexIdentifier U l = lexIdentifier_word (fst (next_rune ?l')) (snd (next_rune ?l'))"
    unfolding assms(1) by (rule lexIdentifier_bareword)
  have em: "items (emit k ?l3) = items l @ [?it k]" for k by simp
  show ?thesis
  proof (cases "?word = ''include''")
    case True
    obtain ys where ys: "items (snd (scanSpaces (emit itemInclude ?l3))) = items (emit itemInclude ?l3) @ ys"
      using scanSpaces_items by blast
    obtain zs where zs: "items (snd (scanStringToEOL (snd (scanSpaces (emit itemInclude ?l3))))) =
        items (snd (scanSpaces (emit itemInclude ?l3))) @ zs"
      using scanStringToEOL_items by blast
    have "\<exists>us. items (snd (lexIdentifier U l)) = (items l @ [?it itemInclude]) @ us"
      unfolding lex lexIdentifier_word_next using tm True
      by (simp add: Let_def zs ys del: emit_simps add: em)
    then obtain us where "items (snd (lexIdentifier U l)) = (items l @ [?it itemInclude]) @ us" ..
    then have "take (Suc (length (items l))) (items (snd (lexIdentifier U l))) = items l @ [?it itemInclude]"
      by (simp only: take_Suc_append)
    with True show ?thesis by (simp add: Let_def key_def)
  next
    case False
    note not_include = this
    show ?thesis
    proof (cases "?word = ''end''")
      case True
      obtain ys where ys: "items (snd (scanSpaces (emit itemEnd ?l3))) = items (emit itemEnd ?l3) @ ys"
        using scanSpaces_items by blast
      have "items (snd (lexIdentifier U l)) = (items l @ [?it itemEnd]) @ ys"
        unfolding lex lexIdentifier_word_next using tm True
        by (simp add: Let_def ys del: emit_simps add: em)
      then have "take (Suc (length (items l))) (items (snd (lexIdentifier U l))) = items l @ [?it itemEnd]"
        by (simp only: take_Suc_append)
      with True show ?thesis by (simp add: Let_def key_def)
    next
      case False
      have "lexIdentifier U l =
          (Some lexJournalFn,
           emit (case map_of key ?word of Some k \<Rightarrow> k | None \<Rightarrow> itemIdentifier) ?l3)"
        unfolding lex lexIdentifier_word_next keyAt_lookup [of ?word, symmetric]
        using tm False not_include by (auto simp: Let_def)
      then show ?thesis using False not_include by (simp add: Let_def)
    qed
  qed
qed

text \<open>A keyword and a word that is not in the table.\<close>

theorem bareword_kind_is_looked_up_witness:
  "bareword latin1 (drop (pos (lexer_at ''alias act'' 0 0)) (input (lexer_at ''alias act'' 0 0))) = ''alias''
   \<and> pos (lexer_at ''alias act'' 0 0) + length ''alias'' < length (input (lexer_at ''alias act'' 0 0))
   \<and> spaceChar (input (lexer_at ''alias act'' 0 0) ! (pos (lexer_at ''alias act'' 0 0) + length ''alias''))
   \<and> fst (lexIdentifier latin1 (lexer_at ''alias act'' 0 0)) = Some lexJournalFn
   \<and> items (snd (lexIdentifier latin1 (lexer_at ''alias act'' 0 0))) =
       [Item itemAlias 0 (Src ''alias'')]
   \<and> bareword latin1 (drop (pos (lexer_at ''payee x'' 0 0)) (input (lexer_at ''payee x'' 0 0))) = ''payee''
   \<and> fst (lexIdentifier latin1 (lexer_at ''payee x'' 0 0)) = Some lexJournalFn
   \<and> items (snd (lexIdentifier latin1 (lexer_at ''payee x'' 0 0))) =
       [Item itemIdentifier 0 (Src ''payee'')]"
proof -
  have a: "bareword latin1 (drop (pos (lexer_at ''alias act'' 0 0)) (input (lexer_at ''alias act'' 0 0))) = ''alias''"
    by code_simp
  have b: "pos (lexer_at ''alias act'' 0 0) + length ''alias'' < length (input (lexer_at ''alias act'' 0 0))"
    by (simp add: lexer_at_def)
  have c: "spaceChar (input (lexer_at ''alias act'' 0 0) ! (pos (lexer_at ''alias act'' 0 0) + length ''alias''))"
    by (simp add: lexer_at_def spaceChar_def)
  have a': "bareword latin1 (drop (pos (lexer_at ''payee x'' 0 0)) (input (lexer_at ''payee x'' 0 0))) = ''payee''"
    by code_simp
  have b': "pos (lexer_at ''payee x'' 0 0) + length ''payee'' < length (input (lexer_at ''payee x'' 0 0))"
    by (simp add: lexer_at_def)
  have c': "spaceChar (input (lexer_at ''payee x'' 0 0) ! (pos (lexer_at ''payee x'' 0 0) + length ''payee''))"
    by (simp add: lexer_at_def spaceChar_def)
  from bareword_kind_is_looked_up [OF a [symmetric] b disjI1 [OF c]]
    bareword_kind_is_looked_up [OF a' [symmetric] b' disjI1 [OF c']] a b c a'
  show ?thesis
    by (simp add: Let_def lexer_at_def slice_def key_def)
qed

text \<open>
  Claim C5 as it was stated looks up lower-case text. The capital \<open>P\<close> is a
  keyword, and \<open>ACCOUNT\<close> is not one.
\<close>

theorem keyword_lookup_is_case_sensitive:
  "lex_steps latin1 2 ''P x'' =
     (Some lexJournalFn,
      \<lparr>input = ''P x'', pos = 1, start = 1, width = 1, items = [Item itemPrice 0 (Src ''P'')]\<rparr>)
   \<and> lex_steps latin1 2 ''ACCOUNT x'' =
     (Some lexJournalFn,
      \<lparr>input = ''ACCOUNT x'', pos = 7, start = 7, width = 1,
       items = [Item itemIdentifier 0 (Src ''ACCOUNT'')]\<rparr>)"
  by code_simp

section \<open>The include directive\<close>

text \<open>
  A rune that is not an end-of-line character has no end-of-line byte in its
  encoding, so the loop of \<open>scanStringToEOL\<close> stops at the first such byte.
\<close>

lemma nth_map_0:
  "2 \<le> length t \<Longrightarrow> map f t ! 0 = f (t ! 0)" "3 \<le> length t \<Longrightarrow> map f t ! 0 = f (t ! 0)"
  by (cases t; simp)+

lemma decode_cont:
  assumes "decodeRuneInString (a # t) = (r, w)" and "Suc i < w"
  shows "(128::nat) \<le> of_char (t ! i)"
proof -
  have w4: "w \<le> 4" using assms(1)
    by (auto simp: decodeRuneInString_def Let_def split: if_splits)
  with assms(2) have "i = 0 \<or> i = 1 \<or> i = 2" by arith
  then show ?thesis using assms
    by (auto simp: decodeRuneInString_def Let_def not_less Suc_le_eq nth_map_0 split: if_splits)
qed


lemma decode_no_eol:
  assumes "s \<noteq> []" and "\<not> eolChar (hd s)"
  shows "\<forall>c \<in> set (take (snd (decodeRuneInString s)) s). \<not> eolChar c"
proof
  fix c assume c: "c \<in> set (take (snd (decodeRuneInString s)) s)"
  obtain a t where s: "s = a # t" using assms(1) by (cases s) auto
  obtain r w where d: "decodeRuneInString (a # t) = (r, w)"
    by (cases "decodeRuneInString (a # t)")
  from c s d obtain i where i: "i < w" "i < length s" "c = s ! i"
    by (auto simp: in_set_conv_nth)
  show "\<not> eolChar c"
  proof (cases i)
    case 0
    with i s assms(2) show ?thesis by simp
  next
    case (Suc j)
    with i d have "(128::nat) \<le> of_char (t ! j)" by (auto intro: decode_cont)
    moreover have "c = t ! j" using i s Suc by simp
    ultimately show ?thesis by (auto simp: eolChar_def)
  qed
qed

lemma takeWhile_take_drop:
  assumes "\<forall>c \<in> set (take w s). P c"
  shows "takeWhile P s = take w s @ takeWhile P (drop w s)"
proof -
  have "takeWhile P (take w s @ drop w s) = take w s @ takeWhile P (drop w s)"
    using assms by (simp only: takeWhile_append2) 
  then show ?thesis by simp
qed

lemma scanStringToEOL_loop_pos:
  "pos (scanStringToEOL_loop l) =
   pos l + length (takeWhile (\<lambda>c. \<not> eolChar c) (drop (pos l) (input l)))"
proof (induction l rule: scanStringToEOL_loop.induct)
  case (1 l)
  let ?s = "drop (pos l) (input l)"
  let ?r = "fst (next_rune l)"
  show ?case
  proof (cases "isEndOfLine ?r \<or> ?r = eof")
    case True
    then have "pos (scanStringToEOL_loop l) = pos l"
      by (subst scanStringToEOL_loop.simps) (auto simp: peek_eq)
    moreover have "takeWhile (\<lambda>c. \<not> eolChar c) ?s = []"
    proof (cases "pos l < length (input l)")
      case False then show ?thesis by simp
    next
      case p: True
      with True have "eolChar (input l ! pos l)"
        by (auto simp: next_rune_eof isEndOfLine_next_rune)
      with p show ?thesis by (simp add: drop_at)
    qed
    ultimately show ?thesis by simp
  next
    case False
    then have p: "pos l < length (input l)" and ne: "\<not> eolChar (input l ! pos l)"
      by (auto simp: next_rune_eof isEndOfLine_next_rune)
    obtain r w where d: "decodeRuneInString ?s = (r, w)" by (cases "decodeRuneInString ?s")
    from p d have nr: "next_rune l = (r, l\<lparr>width := w, pos := pos l + w\<rparr>)"
      by (simp add: next_rune_def)
    from p have s: "?s \<noteq> []" "hd ?s = input l ! pos l" by (simp_all add: hd_drop_conv_nth)
    with decode_no_eol [of ?s] ne d
    have "takeWhile (\<lambda>c. \<not> eolChar c) ?s = take w ?s @ takeWhile (\<lambda>c. \<not> eolChar c) (drop w ?s)"
      by (intro takeWhile_take_drop) simp
    moreover from s d decodeRuneInString_width [of ?s] have "w \<le> length ?s" by simp
    ultimately have len: "length (takeWhile (\<lambda>c. \<not> eolChar c) ?s) =
        w + length (takeWhile (\<lambda>c. \<not> eolChar c) (drop (pos l + w) (input l)))"
      by (simp add: add.commute)
    have "pos (scanStringToEOL_loop l) = pos (scanStringToEOL_loop (l\<lparr>width := w, pos := pos l + w\<rparr>))"
      using False nr by (subst scanStringToEOL_loop.simps) (simp add: peek_eq)
    also have "\<dots> = pos l + w + length (takeWhile (\<lambda>c. \<not> eolChar c) (drop (pos l + w) (input l)))"
    proof -
      have pk: "peek l = (r, l\<lparr>width := w\<rparr>)" using nr by (simp add: peek_eq)
      have "snd (next_rune (l\<lparr>width := w\<rparr>)) = l\<lparr>width := w, pos := pos l + w\<rparr>"
        using nr by simp
      with "1.IH" [OF pk [symmetric] refl] False nr show ?thesis by simp
    qed
    finally show ?thesis unfolding len by simp
  qed
qed

lemma scanSpaces_result:
  assumes "start l = pos l"
  shows "items (snd (scanSpaces l)) =
      items l @ (if takeWhile spaceChar (drop (pos l) (input l)) = [] then []
                 else [Item itemSpace (pos l) (Src (takeWhile spaceChar (drop (pos l) (input l))))])"
    and "pos (snd (scanSpaces l)) = pos l + length (takeWhile spaceChar (drop (pos l) (input l)))"
    and "start (snd (scanSpaces l)) = pos l + length (takeWhile spaceChar (drop (pos l) (input l)))"
    and "input (snd (scanSpaces l)) = input l"
proof -
  have cur: "current (spaceRun l) = takeWhile spaceChar (drop (pos l) (input l))"
    using assms by (simp add: current_def spaceRun_pos slice_takeWhile)
  show "items (snd (scanSpaces l)) =
      items l @ (if takeWhile spaceChar (drop (pos l) (input l)) = [] then []
                 else [Item itemSpace (pos l) (Src (takeWhile spaceChar (drop (pos l) (input l))))])"
    using cur assms by (simp add: scanSpaces_def Let_def current_def)
  show "pos (snd (scanSpaces l)) = pos l + length (takeWhile spaceChar (drop (pos l) (input l)))"
    by (simp add: scanSpaces_def Let_def spaceRun_pos)
  show "start (snd (scanSpaces l)) = pos l + length (takeWhile spaceChar (drop (pos l) (input l)))"
    using cur assms by (auto simp: scanSpaces_def Let_def spaceRun_pos)
  show "input (snd (scanSpaces l)) = input l"
    by (simp add: scanSpaces_def Let_def)
qed

lemma scanStringToEOL_result:
  assumes "start l = pos l"
  shows "items (snd (scanStringToEOL l)) =
      items l @ (if takeWhile (\<lambda>c. \<not> eolChar c) (drop (pos l) (input l)) = [] then []
                 else [Item itemString (pos l)
                         (Src (takeWhile (\<lambda>c. \<not> eolChar c) (drop (pos l) (input l))))])"
    and "fst (scanStringToEOL l) \<longleftrightarrow> takeWhile (\<lambda>c. \<not> eolChar c) (drop (pos l) (input l)) \<noteq> []"
    and "start (snd (scanStringToEOL l)) =
      pos l + length (takeWhile (\<lambda>c. \<not> eolChar c) (drop (pos l) (input l)))"
proof -
  have cur: "current (scanStringToEOL_loop l) =
      takeWhile (\<lambda>c. \<not> eolChar c) (drop (pos l) (input l))"
    using assms by (simp add: current_def scanStringToEOL_loop_pos slice_takeWhile)
  show "items (snd (scanStringToEOL l)) =
      items l @ (if takeWhile (\<lambda>c. \<not> eolChar c) (drop (pos l) (input l)) = [] then []
                 else [Item itemString (pos l)
                         (Src (takeWhile (\<lambda>c. \<not> eolChar c) (drop (pos l) (input l))))])"
    using cur assms by (simp add: scanStringToEOL_def Let_def current_def)
  show "fst (scanStringToEOL l) \<longleftrightarrow> takeWhile (\<lambda>c. \<not> eolChar c) (drop (pos l) (input l)) \<noteq> []"
    using cur by (simp add: scanStringToEOL_def Let_def)
  show "start (snd (scanStringToEOL l)) =
      pos l + length (takeWhile (\<lambda>c. \<not> eolChar c) (drop (pos l) (input l)))"
    using cur assms by (auto simp: scanStringToEOL_def Let_def scanStringToEOL_loop_pos)
qed

lemma bareword_Cons_ascii:
  "of_char c < (128::nat) \<Longrightarrow>
   bareword U (c # s) = (if isAlphaNumeric U (of_char c) then c # bareword U s else [])"
  by (subst bareword.simps) (simp add: decode_ascii)

lemma terminator_not_alnum:
  "spaceChar c \<or> eolChar c \<Longrightarrow> of_char c < (128::nat) \<and> \<not> isAlphaNumeric U (of_char c)"
  by (auto simp: spaceChar_def eolChar_def isAlphaNumeric_def IsLetter_def IsDigit_def
      latin1Letter_def)

lemma bareword_include:
  assumes "rest \<noteq> []" and "spaceChar (hd rest) \<or> eolChar (hd rest)"
  shows "bareword U (''include'' @ rest) = ''include''"
proof -
  obtain c t where rest: "rest = c # t" using assms(1) by (cases rest) auto
  with assms(2) terminator_not_alnum [of c U] show ?thesis
    by (simp add: bareword_Cons_ascii isAlphaNumeric_def IsLetter_def latin1Letter_def)
qed

text \<open>
  Claim C9, as amended: for the bareword \<open>include\<close> followed by a space, a tab or
  an end-of-line character, the scanner sends the include keyword, then the run of
  spaces and tabs as a space item (none when the run is empty), then the rest of the
  line as a string item, and goes on in \<open>lexJournal\<close>; when nothing is left on the
  line after the spaces, it sends the error "missing filename after 'include'"
  instead of the string item, and halts.
\<close>

theorem include_directive:
  assumes "drop (pos l) (input l) = ''include'' @ rest" and "start l = pos l"
    and "rest \<noteq> []" and "spaceChar (hd rest) \<or> eolChar (hd rest)"
  shows "let sp = takeWhile spaceChar rest;
             fname = takeWhile (\<lambda>c. \<not> eolChar c) (drop (length sp) rest);
             p = pos l;
             res = lexIdentifier U l
         in items (snd res) =
              items l @ [Item itemInclude p (Src ''include'')]
              @ (if sp = [] then [] else [Item itemSpace (p + 7) (Src sp)])
              @ (if fname = [] then
                   [Item itemError (p + 7 + length sp) (Sprintf missingFilename [])]
                 else [Item itemString (p + 7 + length sp) (Src fname)])
          \<and> fst res = (if fname = [] then None else Some lexJournalFn)"
proof -
  let ?sp = "takeWhile spaceChar rest"
  let ?fname = "takeWhile (\<lambda>c. \<not> eolChar c) (drop (length ?sp) rest)"
  let ?l' = "l\<lparr>pos := pos l + 7\<rparr>"
  let ?l3 = "?l'\<lparr>width := width (snd (next_rune ?l'))\<rparr>"
  let ?l4 = "emit itemInclude ?l3"
  let ?l5 = "snd (scanSpaces ?l4)"
  have bw: "bareword U (drop (pos l) (input l)) = ''include''"
    unfolding assms(1) using assms(3,4) by (rule bareword_include)
  have "length (drop (pos l) (input l)) = 7 + length rest" by (simp add: assms(1))
  with assms(3) have p7: "pos l + 7 < length (input l)" by (cases rest) auto
  have "drop 7 (drop (pos l) (input l)) = rest" by (simp add: assms(1))
  then have rest: "drop (pos l + 7) (input l) = rest" by (simp add: add.commute)
  with p7 have hd: "input l ! (pos l + 7) = hd rest"
    by (metis hd_drop_conv_nth)
  have word: "slice (input l) (start l) (pos l + 7) = ''include''"
    by (simp add: slice_def assms(1,2))
  have tm: "isSpace (fst (next_rune ?l')) \<or> isEndOfLine (fst (next_rune ?l'))"
    using p7 hd assms(4) by (simp add: isSpace_next_rune isEndOfLine_next_rune)
  have "lexIdentifier U l = lexIdentifier_word (fst (next_rune ?l')) (snd (next_rune ?l'))"
  proof -
    have "length (bareword U (drop (pos l) (input l))) = 7" by (simp add: bw)
    from lexIdentifier_bareword [of U l, unfolded this] show ?thesis .
  qed
  also have "\<dots> =
      (if \<not> fst (scanStringToEOL ?l5) then errorf missingFilename [] (snd (scanStringToEOL ?l5))
       else (Some lexJournalFn, snd (scanStringToEOL ?l5)))"
    unfolding lexIdentifier_word_next using tm word by (auto simp: Let_def)
  finally have res: "lexIdentifier U l =
      (if \<not> fst (scanStringToEOL ?l5) then errorf missingFilename [] (snd (scanStringToEOL ?l5))
       else (Some lexJournalFn, snd (scanStringToEOL ?l5)))" .
  have l4: "start ?l4 = pos ?l4" "pos ?l4 = pos l + 7" "input ?l4 = input l"
    "items ?l4 = items l @ [Item itemInclude (pos l) (Src ''include'')]"
    using word assms(2) by simp_all
  have l5: "items ?l5 = items ?l4 @ (if ?sp = [] then [] else [Item itemSpace (pos l + 7) (Src ?sp)])"
    "pos ?l5 = pos l + 7 + length ?sp" "start ?l5 = pos l + 7 + length ?sp" "input ?l5 = input l"
    using scanSpaces_result [OF l4(1)] by (simp_all only: l4 rest)
  have d5: "drop (pos ?l5) (input ?l5) = drop (length ?sp) rest"
    using rest by (simp only: l5) (metis add.commute drop_drop)
  have s5: "start ?l5 = pos ?l5" by (simp only: l5)
  note l6 = scanStringToEOL_result [OF s5, unfolded d5, unfolded l5(2)]
  show ?thesis
    unfolding Let_def res by (simp add: l6 l5(1) l4(4) del: emit_simps)
qed

text \<open>A line with a file name, and a line that ends after the spaces.\<close>

theorem include_directive_witness:
  "drop (pos (lexer_at ''include x.dat'' 0 0)) (input (lexer_at ''include x.dat'' 0 0))
     = ''include'' @ '' x.dat''
   \<and> start (lexer_at ''include x.dat'' 0 0) = pos (lexer_at ''include x.dat'' 0 0)
   \<and> spaceChar (hd '' x.dat'')
   \<and> items (snd (lexIdentifier latin1 (lexer_at ''include x.dat'' 0 0))) =
       [Item itemInclude 0 (Src ''include''), Item itemSpace 7 (Src '' ''),
        Item itemString 8 (Src ''x.dat'')]
   \<and> fst (lexIdentifier latin1 (lexer_at ''include x.dat'' 0 0)) = Some lexJournalFn
   \<and> drop (pos (lexer_at ''include  '' 0 0)) (input (lexer_at ''include  '' 0 0))
     = ''include'' @ ''  ''
   \<and> items (snd (lexIdentifier latin1 (lexer_at ''include  '' 0 0))) =
       [Item itemInclude 0 (Src ''include''), Item itemSpace 7 (Src ''  ''),
        Item itemError 9 (Sprintf missingFilename [])]
   \<and> fst (lexIdentifier latin1 (lexer_at ''include  '' 0 0)) = None"
proof -
  have a: "drop (pos (lexer_at ''include x.dat'' 0 0)) (input (lexer_at ''include x.dat'' 0 0))
     = ''include'' @ '' x.dat''" by (simp add: lexer_at_def)
  have b: "start (lexer_at inp 0 0) = pos (lexer_at inp 0 0)" for inp
    by (simp add: lexer_at_def)
  have c: "'' x.dat'' \<noteq> []" "''  '' \<noteq> []" by simp_all
  have d: "spaceChar (hd '' x.dat'')" "spaceChar (hd ''  '')" by (simp_all add: spaceChar_def)
  have a': "drop (pos (lexer_at ''include  '' 0 0)) (input (lexer_at ''include  '' 0 0))
     = ''include'' @ ''  ''" by (simp add: lexer_at_def)
  from include_directive [OF a b c(1) disjI1 [OF d(1)], of latin1]
    include_directive [OF a' b c(2) disjI1 [OF d(2)], of latin1] a b d(1) a'
  show ?thesis
    by (simp add: Let_def lexer_at_def spaceChar_def eolChar_def)
qed

text \<open>
  Claim C9 as it was stated has the error "missing filename" also when the input ends
  right after the word. There \<open>atTerminator\<close> fails first: no keyword item is sent,
  and the error is "bad character".
\<close>

theorem include_at_end_of_input:
  "lex_steps latin1 2 ''include'' =
     (None,
      \<lparr>input = ''include'', pos = 7, start = 0, width = 0,
       items = [Item itemError 0 (Sprintf ''bad character %#U'' [eof])]\<rparr>)"
  by code_simp

section \<open>The items tile the input\<close>

lemma laid_append:
  "laid p (xs @ ys) = (laid p xs \<and> laid (p + length (concat (map span xs))) ys)"
  by (induction xs arbitrary: p) (auto simp: add.assoc)

lemma tiled_adv: "tiled inp l \<Longrightarrow> adv l l' \<Longrightarrow> tiled inp l'"
  by (auto simp: tiled_def adv_def)

lemma adv_refl [simp]: "adv l l"
  by (simp add: adv_def)

lemma adv_trans: "adv l l' \<Longrightarrow> adv l' l'' \<Longrightarrow> adv l l''"
  by (auto simp: adv_def)

lemma adv_width [simp]: "adv l (l\<lparr>width := w\<rparr>)"
  by (simp add: adv_def)

lemma adv_next: "adv l (snd (next_rune l))"
  using next_rune_advance [of l] next_rune_mono [of l]
  by (cases "pos l < length (input l)") (auto simp: adv_def next_rune_at_eof)

lemma tiled_width [simp]: "tiled inp (l\<lparr>width := w\<rparr>) = tiled inp l"
  by (simp add: tiled_def)

lemma tiled_next: "tiled inp l \<Longrightarrow> tiled inp (snd (next_rune l))"
  by (rule tiled_adv [OF _ adv_next])

lemma take_slice: "i \<le> j \<Longrightarrow> take i s @ slice s i j = take j s"
  by (metis slice_def le_add_diff_inverse take_add)

lemma tiled_emit: "tiled inp l \<Longrightarrow> tiled inp (emit t l)"
  by (auto simp: tiled_def laid_append span_def take_slice)

lemma tiled_errorf: "tiled inp l \<Longrightarrow> tiled inp (snd (errorf f a l))"
  by (auto simp: tiled_def errorf_def laid_append span_def)

lemma adv_spaceRun: "adv l (spaceRun l)"
proof (induction l rule: spaceRun.induct)
  case (1 l)
  show ?case
  proof (cases "isSpace (fst (next_rune l))")
    case True
    then have "spaceRun l = spaceRun (snd (next_rune l))"
      by (subst spaceRun.simps) (simp add: peek_eq)
    moreover have "adv (snd (next_rune l)) (spaceRun (snd (next_rune l)))"
      using "1.IH" [of "peek l" "fst (next_rune l)" "snd (peek l)"] True
      by (simp add: peek_eq)
    ultimately show ?thesis using adv_next [of l] by (auto intro: adv_trans)
  next
    case False
    then have "spaceRun l = l\<lparr>width := width (snd (next_rune l))\<rparr>"
      by (subst spaceRun.simps) (simp add: peek_eq)
    then show ?thesis by simp
  qed
qed

lemma adv_scanStringToEOL_loop: "adv l (scanStringToEOL_loop l)"
proof (induction l rule: scanStringToEOL_loop.induct)
  case (1 l)
  show ?case
  proof (cases "isEndOfLine (fst (next_rune l)) \<or> fst (next_rune l) = eof")
    case False
    then have "scanStringToEOL_loop l = scanStringToEOL_loop (snd (next_rune l))"
      by (subst scanStringToEOL_loop.simps) (simp add: peek_eq)
    moreover have "adv (snd (next_rune l)) (scanStringToEOL_loop (snd (next_rune l)))"
      using "1.IH" [of "peek l" "fst (next_rune l)" "snd (peek l)"] False
      by (simp add: peek_eq)
    ultimately show ?thesis using adv_next [of l] by (auto intro: adv_trans)
  next
    case True
    then have "scanStringToEOL_loop l = l\<lparr>width := width (snd (next_rune l))\<rparr>"
      by (subst scanStringToEOL_loop.simps) (auto simp: peek_eq)
    then show ?thesis by simp
  qed
qed

lemma adv_scanStringUntil_loop: "adv l (scanStringUntil_loop until l)"
proof (induction until l rule: scanStringUntil_loop.induct)
  case (1 until l)
  show ?case
  proof (cases "isEndOfLine (fst (next_rune l)) \<or> fst (next_rune l) = eof
      \<or> fst (next_rune l) = until")
    case False
    then have "scanStringUntil_loop until l = scanStringUntil_loop until (snd (next_rune l))"
      by (subst scanStringUntil_loop.simps) (simp add: peek_eq)
    moreover have "adv (snd (next_rune l)) (scanStringUntil_loop until (snd (next_rune l)))"
      using "1.IH" [of "peek l" "fst (next_rune l)" "snd (peek l)"] False
      by (simp add: peek_eq)
    ultimately show ?thesis using adv_next [of l] by (auto intro: adv_trans)
  next
    case True
    then have "scanStringUntil_loop until l = l\<lparr>width := width (snd (next_rune l))\<rparr>"
      by (subst scanStringUntil_loop.simps) (auto simp: peek_eq)
    then show ?thesis by simp
  qed
qed

lemma adv_scanAccountName_loop: "adv l (scanAccountName_loop l)"
proof (induction l rule: scanAccountName_loop.induct)
  case (1 l)
  let ?stop = "isEndOfLine (fst (next_rune l)) \<or> fst (next_rune l) = eof
      \<or> fst (next_rune l) = of_char (CHR 0x09)
      \<or> (fst (next_rune l) = of_char CHR '' ''
          \<and> isSpace (fst (peek (snd (next_rune l)))))"
  show ?case
  proof (cases ?stop)
    case False
    then have "scanAccountName_loop l = scanAccountName_loop (snd (next_rune l))"
      by (subst scanAccountName_loop.simps) (auto simp: peek_eq)
    moreover have "adv (snd (next_rune l)) (scanAccountName_loop (snd (next_rune l)))"
      using "1.IH" [of "peek l" "fst (next_rune l)" "snd (peek l)"] False
      by (simp add: peek_eq)
    ultimately show ?thesis using adv_next [of l] by (auto intro: adv_trans)
  next
    case True
    then have "scanAccountName_loop l = l\<lparr>width := width (snd (next_rune l))\<rparr>"
      by (subst scanAccountName_loop.simps) (auto simp: peek_eq)
    then show ?thesis by simp
  qed
qed

lemma tiled_spaceRun: "tiled inp l \<Longrightarrow> tiled inp (spaceRun l)"
  by (rule tiled_adv [OF _ adv_spaceRun])

lemma tiled_scanSpaces: "tiled inp l \<Longrightarrow> tiled inp (snd (scanSpaces l))"
  by (simp add: scanSpaces_def Let_def tiled_spaceRun tiled_emit)

lemma tiled_scanStringToEOL: "tiled inp l \<Longrightarrow> tiled inp (snd (scanStringToEOL l))"
  by (simp add: scanStringToEOL_def Let_def tiled_emit tiled_adv [OF _ adv_scanStringToEOL_loop])

lemma tiled_scanStringUntil: "tiled inp l \<Longrightarrow> tiled inp (snd (scanStringUntil until l))"
  by (simp add: scanStringUntil_def Let_def tiled_emit tiled_adv [OF _ adv_scanStringUntil_loop])

lemma tiled_scanAccountName: "tiled inp l \<Longrightarrow> tiled inp (scanAccountName l)"
  by (simp add: scanAccountName_def tiled_emit tiled_adv [OF _ adv_scanAccountName_loop])

lemma tiled_scanNote: "tiled inp l \<Longrightarrow> tiled inp (scanNote l)"
proof (induction l rule: scanNote.induct)
  case (1 l)
  show ?case
  proof (cases "isEndOfLine (fst (next_rune l)) \<or> fst (next_rune l) = eof")
    case True
    then have "scanNote l =
        (if current (l\<lparr>width := width (snd (next_rune l))\<rparr>) \<noteq> []
         then emit itemNote (l\<lparr>width := width (snd (next_rune l))\<rparr>)
         else l\<lparr>width := width (snd (next_rune l))\<rparr>)"
      by (subst scanNote.simps) (auto simp: case_prod_unfold Let_def backup_next_rune)
    with "1.prems" show ?thesis by (simp add: tiled_emit)
  next
    case False
    then have "scanNote l = scanNote (snd (next_rune l))"
      by (subst scanNote.simps) (simp add: case_prod_unfold Let_def)
    moreover have "tiled inp (scanNote (snd (next_rune l)))"
      using "1.IH" [of "next_rune l" "fst (next_rune l)" "snd (next_rune l)"] False "1.prems"
      by (simp add: tiled_next)
    ultimately show ?thesis by simp
  qed
qed

lemma tiled_scanStringNote: "tiled inp l \<Longrightarrow> tiled inp (scanStringNote l)"
proof (induction l rule: scanStringNote.induct)
  case (1 l)
  let ?r = "fst (next_rune l)" and ?l1 = "snd (next_rune l)"
  let ?l2 = "l\<lparr>width := width (snd (next_rune l))\<rparr>"
  have l1: "tiled inp ?l1" using "1.prems" by (rule tiled_next)
  consider (semi) "?r = of_char CHR '';''"
    | (stop) "?r \<noteq> of_char CHR '';''" "isEndOfLine ?r \<or> ?r = eof"
    | (go) "?r \<noteq> of_char CHR '';''" "\<not> isEndOfLine ?r" "?r \<noteq> eof"
    by blast
  then show ?case
  proof cases
    case semi
    then have "scanStringNote l =
        scanNote (snd (next_rune (if current ?l2 \<noteq> [] then emit itemString ?l2 else ?l2)))"
      by (subst scanStringNote.simps) (simp add: case_prod_unfold Let_def backup_next_rune)
    moreover have "tiled inp (if current ?l2 \<noteq> [] then emit itemString ?l2 else ?l2)"
      using "1.prems" by (simp add: tiled_emit)
    ultimately show ?thesis by (simp add: tiled_scanNote tiled_next)
  next
    case stop
    then have "scanStringNote l = (if current ?l1 \<noteq> [] then emit itemString ?l1 else ?l1)"
      by (subst scanStringNote.simps) (auto simp: case_prod_unfold Let_def)
    with l1 show ?thesis by (simp add: tiled_emit)
  next
    case go
    then have "scanStringNote l = scanStringNote ?l1"
      by (subst scanStringNote.simps) (simp add: case_prod_unfold Let_def)
    moreover have "tiled inp (scanStringNote ?l1)"
      using "1.IH" [of "next_rune l" ?r ?l1] go l1 by simp
    ultimately show ?thesis by simp
  qed
qed

lemma tiled_lexIdentifier: "tiled inp l \<Longrightarrow> tiled inp (snd (lexIdentifier U l))"
proof (induction U l rule: lexIdentifier.induct)
  case (1 U l)
  show ?case
  proof (cases "isAlphaNumeric U (fst (next_rune l))")
    case True
    then have "lexIdentifier U l = lexIdentifier U (snd (next_rune l))"
      by (subst lexIdentifier.simps) (simp add: case_prod_unfold Let_def)
    moreover have "tiled inp (snd (lexIdentifier U (snd (next_rune l))))"
      using "1.IH" [of "next_rune l" "fst (next_rune l)" "snd (next_rune l)"] True "1.prems"
      by (simp add: tiled_next)
    ultimately show ?thesis by simp
  next
    case False
    then have "lexIdentifier U l = lexIdentifier_word (fst (next_rune l)) (snd (next_rune l))"
      by (subst lexIdentifier.simps) (simp add: case_prod_unfold Let_def)
    then show ?thesis
      unfolding lexIdentifier_word_next using "1.prems"
      by (simp add: Let_def tiled_emit tiled_errorf tiled_scanSpaces tiled_scanStringToEOL)
  qed
qed

lemma tiled_lexJournal: "tiled inp l \<Longrightarrow> tiled inp (snd (lexJournal U l))"
  by (simp add: lexJournal_def case_prod_unfold Let_def backup_next_rune tiled_emit
      tiled_errorf tiled_next tiled_spaceRun)

lemma tiled_lexPeriodicXact: "tiled inp l \<Longrightarrow> tiled inp (snd (lexPeriodicXact l))"
  by (simp add: lexPeriodicXact_def case_prod_unfold Let_def tiled_scanSpaces
      tiled_scanStringNote)

lemma tiled_lexAutomatedXact: "tiled inp l \<Longrightarrow> tiled inp (snd (lexAutomatedXact l))"
  by (simp add: lexAutomatedXact_def case_prod_unfold Let_def tiled_scanSpaces
      tiled_scanStringNote)

lemma tiled_lexPlainXactDate: "tiled inp l \<Longrightarrow> tiled inp (snd (lexPlainXactDate U l))"
  by (simp add: lexPlainXactDate_def peek_eq case_prod_unfold Let_def tiled_emit
      tiled_errorf tiled_next tiled_scanSpaces)

lemma tiled_lexPlainXactRest: "tiled inp l \<Longrightarrow> tiled inp (snd (lexPlainXactRest l))"
  by (simp add: lexPlainXactRest_def case_prod_unfold Let_def backup_next_rune tiled_emit
      tiled_next tiled_scanSpaces tiled_scanStringUntil tiled_scanStringNote)

lemma tiled_lexPostings: "tiled inp l \<Longrightarrow> tiled inp (snd (lexPostings U b l))"
  by (simp add: lexPostings_def case_prod_unfold Let_def backup_next_rune tiled_emit
      tiled_next tiled_scanSpaces tiled_scanAccountName)

lemma tiled_step: "tiled inp l \<Longrightarrow> tiled inp (snd (step U f l))"
  by (cases f)
    (simp_all add: tiled_lexJournal tiled_lexIdentifier tiled_lexPeriodicXact
      tiled_lexAutomatedXact tiled_lexPlainXactDate tiled_lexPlainXactRest tiled_lexPostings
      lexPostingAmount_def)

lemma tiled_run: "tiled inp (snd c) \<Longrightarrow> tiled inp (snd (run U n c))"
proof (induction n arbitrary: c)
  case 0
  then show ?case by simp
next
  case (Suc n)
  obtain f l where c: "c = (f, l)" by (cases c)
  show ?case
  proof (cases f)
    case None
    with Suc.prems c show ?thesis by simp
  next
    case (Some g)
    with Suc.prems c have "tiled inp (snd (step U g l))" by (simp add: tiled_step)
    then have "tiled inp (snd (run U n (step U g l)))" by (rule Suc.IH)
    with Some c show ?thesis by simp
  qed
qed

lemma tiled_lex_new: "tiled inp (lex_new inp)"
  by (simp add: tiled_def lex_new_def)

lemma tiled_lex_steps: "tiled inp (snd (lex_steps U n inp))"
  unfolding lex_steps_def by (rule tiled_run) (simp add: tiled_lex_new)






subsection \<open>Items for the end of the input\<close>


lemma eofs_width [simp]: "eofs inp (l\<lparr>width := w\<rparr>) = eofs inp l"
  by (simp add: eofs_def)






















end
